theory Spec2Isabelle
  imports Main "HOL-Library.Word"
begin

section \<open>The smaz Python extension module (smazmodule.c)\<close>

text \<open>
  The module wraps the two routines of the smaz short-string codec, \<^verbatim>\<open>smaz_compress\<close> and
  \<^verbatim>\<open>smaz_decompress\<close>, as the Python functions \<^verbatim>\<open>compress(str) -> bytes\<close> and
  \<^verbatim>\<open>decompress(bytes) -> str\<close>. Each wrapper parses its argument, allocates a scratch
  buffer of 4096 bytes, calls the codec routine, doubles the buffer for as long as the
  routine answers \<open>capacity + 1\<close>, and builds the Python result from the buffer.

  The embedding follows the C text of the two wrappers. What the wrappers call but do not
  define is made explicit:
  \<^item> the codec routine is a parameter of type \<open>transform\<close>: what it does with an output
    buffer, and what it does with a null pointer in the place of one;
  \<^item> \<^verbatim>\<open>malloc\<close> and \<^verbatim>\<open>realloc\<close> answer through an \<open>allocator\<close>, which decides for each
    request of a call whether it returns \<^verbatim>\<open>NULL\<close> and what the uninitialised bytes are;
  \<^item> \<^verbatim>\<open>PyArg_ParseTuple\<close> and \<^verbatim>\<open>Py_BuildValue\<close> are modelled for the four format units the
    wrappers use, after the CPython C-API reference;
  \<^item> undefined behaviour of C (a write through a null pointer, a write or read past the
    buffer, overflow of \<^verbatim>\<open>int\<close>) is an error value of its own, \<open>Undefined\<close>: the model of
    the call stops where the behaviour of the C program is no longer defined;
  \<^item> the allocations that the host makes for its own objects (the result object, the
    UTF-8 form of the argument) are taken to succeed.
  Every wrapper also returns the trace of its allocator and codec calls, so that claims
  about what a call does, and not only about what it returns, can be stated.
\<close>

subsection \<open>Bytes, host values, errors\<close>

type_synonym byte = "8 word"
type_synonym buffer = "byte list"

text \<open>
  A pointer to a scratch buffer is a \<open>buffer option\<close>: \<open>None\<close> is the null pointer,
  \<open>Some b\<close> a block with the content \<open>b\<close>, whose size is the length of \<open>b\<close>.
\<close>

text \<open>
  Host values. A Python \<^verbatim>\<open>str\<close> is represented by its UTF-8 encoding, which is what the
  format unit \<^verbatim>\<open>s\<close> hands to C and what \<^verbatim>\<open>Py_BuildValue("s", ...)\<close> decodes.
\<close>

datatype pyobj =
    PyStr "byte list"
  | PyBytes "byte list"
  | PyInt int
  | PyList "pyobj list"
  | PyNone

datatype undefined_behaviour =
    NullBuffer
  | SignedOverflow
  | OutOfBoundsWrite int nat
  | OutOfBoundsRead

text \<open>
  \<open>NullBuffer\<close>: a write through the null pointer. \<open>OutOfBoundsWrite i n\<close>: a write at
  index \<open>i\<close> of a block of \<open>n\<close> bytes.

  \<open>TypeError\<close> carries the function name that the format string gives after the colon
  (\<^verbatim>\<open>":compress"\<close>, \<^verbatim>\<open>":decompress"\<close>).
\<close>

datatype error =
    TypeError string
  | ValueError string
  | UnicodeDecodeError
  | Undefined undefined_behaviour

datatype event =
    Malloc nat bool
  | Realloc nat bool
  | Transform int int int
  | Free

text \<open>
  \<open>Malloc n ok\<close> and \<open>Realloc n ok\<close>: a request for \<open>n\<close> bytes and whether it succeeded.
  \<open>Transform inlen outlen r\<close>: a call of the codec routine with these two lengths, which
  returned \<open>r\<close>. \<open>Free\<close>: the call of \<^verbatim>\<open>free\<close> with the pointer, null or not.
\<close>

subsection \<open>The C library: int, strlen, malloc, realloc\<close>

text \<open>
  \<^verbatim>\<open>int\<close> has 32 bits, as on every platform that CPython supports. Overflow of a signed
  integer is undefined in C and is not given a value here.
\<close>

definition INT_MAX :: int where
  "INT_MAX = 2 ^ 31 - 1"

text \<open>The length of a C string: the number of bytes before the first null byte.\<close>

definition strlen :: "byte list \<Rightarrow> nat" where
  "strlen s = length (takeWhile (\<lambda>b. b \<noteq> 0) s)"

record allocator =
  refuses :: "nat \<Rightarrow> bool"
  garbage :: "nat \<Rightarrow> nat \<Rightarrow> byte"

text \<open>
  \<open>refuses al k\<close>: the \<open>k\<close>-th request of the call (counted from 0) returns \<^verbatim>\<open>NULL\<close>.
  \<open>garbage al k i\<close>: the uninitialised byte at offset \<open>i\<close> of the block that request
  \<open>k\<close> hands out.
\<close>

definition uninit :: "allocator \<Rightarrow> nat \<Rightarrow> nat \<Rightarrow> nat \<Rightarrow> buffer" where
  "uninit al k lo n = map (\<lambda>i. garbage al k (lo + i)) [0..<n]"

definition malloc :: "allocator \<Rightarrow> nat \<Rightarrow> nat \<Rightarrow> buffer option" where
  "malloc al k n = (if refuses al k then None else Some (uninit al k 0 n))"

text \<open>
  \<^verbatim>\<open>realloc\<close> keeps the old content up to the smaller of the two sizes; with the null
  pointer it is \<^verbatim>\<open>malloc\<close>. When it fails it returns the null pointer and leaves the old
  block allocated.
\<close>

definition realloc :: "allocator \<Rightarrow> nat \<Rightarrow> buffer option \<Rightarrow> nat \<Rightarrow> buffer option" where
  "realloc al k old n =
     (if refuses al k then None
      else (case old of
              None \<Rightarrow> Some (uninit al k 0 n)
            | Some b \<Rightarrow> Some (take n b @ uninit al k (length b) (n - length b))))"

subsection \<open>The codec routine\<close>

text \<open>
  \<^verbatim>\<open>smaz_compress(in, inlen, out, outlen)\<close> and \<^verbatim>\<open>smaz_decompress\<close> of the same shape.
  \<open>on_buffer\<close>: the input, its length, the content of the output buffer before the call
  and its capacity; the result code and the content of the output buffer after the call.
  \<open>on_null\<close>: the call with the null pointer as output buffer, which the wrappers make
  after a failed allocation: the input, its length and the capacity; the result code
  if the routine returns without writing, \<open>None\<close> if it writes through the null pointer.

  The wrapper stores the result code in an \<^verbatim>\<open>int\<close>. The prototypes are in \<^verbatim>\<open>smaz/smaz.h\<close>,
  which the wrapper includes; the two lengths are passed as integers, and no conversion
  of \<^verbatim>\<open>size_t\<close> or \<^verbatim>\<open>Py_ssize_t\<close> to the type of the parameter is modelled.
\<close>

record transform =
  on_buffer :: "byte list \<Rightarrow> int \<Rightarrow> buffer \<Rightarrow> int \<Rightarrow> int \<times> buffer"
  on_null :: "byte list \<Rightarrow> int \<Rightarrow> int \<Rightarrow> int option"

text \<open>
  A call of the routine with the pointer \<open>out\<close>: the result code and the pointer, which
  the call does not change; \<open>None\<close> when the behaviour is undefined.
\<close>

definition codec_call ::
  "transform \<Rightarrow> byte list \<Rightarrow> int \<Rightarrow> buffer option \<Rightarrow> int \<Rightarrow> (int \<times> buffer option) option"
where
  "codec_call tr inp inlen out outlen =
     (case out of
        None \<Rightarrow>
          (case on_null tr inp inlen outlen of None \<Rightarrow> None | Some r \<Rightarrow> Some (r, None))
      | Some b \<Rightarrow>
          (case on_buffer tr inp inlen b outlen of (r, b') \<Rightarrow> Some (r, Some b')))"

subsection \<open>The CPython C-API\<close>

text \<open>
  Format unit \<^verbatim>\<open>s\<close>: exactly one argument, a \<^verbatim>\<open>str\<close>; a \<^verbatim>\<open>str\<close> with an embedded null
  character raises \<^verbatim>\<open>ValueError\<close>. Anything else raises \<^verbatim>\<open>TypeError\<close>.
\<close>

fun PyArg_ParseTuple_s :: "string \<Rightarrow> pyobj list \<Rightarrow> error + byte list" where
  "PyArg_ParseTuple_s fname [PyStr s] =
     (if 0 \<in> set s then Inl (ValueError ''embedded null character'') else Inr s)"
| "PyArg_ParseTuple_s fname args = Inl (TypeError fname)"

text \<open>
  Format unit \<^verbatim>\<open>y#\<close>: exactly one argument, a \<^verbatim>\<open>bytes\<close> object, which may contain null
  bytes; the pointer and the length.
\<close>

fun PyArg_ParseTuple_y_hash :: "string \<Rightarrow> pyobj list \<Rightarrow> error + (byte list \<times> int)" where
  "PyArg_ParseTuple_y_hash fname [PyBytes b] = Inr (b, int (length b))"
| "PyArg_ParseTuple_y_hash fname args = Inl (TypeError fname)"

text \<open>
  \<^verbatim>\<open>Py_BuildValue("y#", p, n)\<close> returns \<^verbatim>\<open>None\<close> for the null pointer and otherwise copies
  \<open>n\<close> bytes from \<open>p\<close> into a new \<^verbatim>\<open>bytes\<close> object; an \<open>n\<close> beyond the block reads past its
  end. The wrapper passes the \<^verbatim>\<open>int\<close> \<^verbatim>\<open>compressed_size\<close> where the format unit reads a
  \<^verbatim>\<open>Py_ssize_t\<close>: a value from 0 on is read as it is, a negative one is read as a length
  of at least \<open>2 ^ 31\<close> bytes, which is beyond every block of the wrapper.
\<close>

definition Py_BuildValue_y_hash :: "buffer option \<Rightarrow> int \<Rightarrow> error + pyobj" where
  "Py_BuildValue_y_hash p n =
     (case p of
        None \<Rightarrow> Inr PyNone
      | Some b \<Rightarrow>
          (if n < 0 \<or> int (length b) < n then Inl (Undefined OutOfBoundsRead)
           else Inr (PyBytes (take (nat n) b))))"

text \<open>Well-formed UTF-8 (Unicode, table 3-7), which the strict decoder accepts.\<close>

definition cont :: "byte \<Rightarrow> bool" where
  "cont b \<longleftrightarrow> 0x80 \<le> b \<and> b \<le> 0xBF"

text \<open>The range of the second byte, which depends on the lead byte.\<close>

definition second_lo :: "byte \<Rightarrow> byte" where
  "second_lo b = (if b = 0xE0 then 0xA0 else if b = 0xF0 then 0x90 else 0x80)"

definition second_hi :: "byte \<Rightarrow> byte" where
  "second_hi b = (if b = 0xED then 0x9F else if b = 0xF4 then 0x8F else 0xBF)"

fun valid_utf8 :: "byte list \<Rightarrow> bool" where
  "valid_utf8 [] = True"
| "valid_utf8 (b # bs) =
     (if b < 0x80 then valid_utf8 bs
      else if 0xC2 \<le> b \<and> b \<le> 0xDF then
        (case bs of c1 # r \<Rightarrow> cont c1 \<and> valid_utf8 r | _ \<Rightarrow> False)
      else if 0xE0 \<le> b \<and> b \<le> 0xEF then
        (case bs of c1 # c2 # r \<Rightarrow>
           second_lo b \<le> c1 \<and> c1 \<le> second_hi b \<and> cont c2 \<and> valid_utf8 r
         | _ \<Rightarrow> False)
      else if 0xF0 \<le> b \<and> b \<le> 0xF4 then
        (case bs of c1 # c2 # c3 # r \<Rightarrow>
           second_lo b \<le> c1 \<and> c1 \<le> second_hi b \<and> cont c2 \<and> cont c3 \<and> valid_utf8 r
         | _ \<Rightarrow> False)
      else False)"

text \<open>
  \<^verbatim>\<open>Py_BuildValue("s", p)\<close> reads the C string at \<open>p\<close>, that is the bytes before the first
  null byte, and decodes them as UTF-8. A buffer without a null byte is read past its end.
\<close>

definition Py_BuildValue_s :: "buffer \<Rightarrow> error + pyobj" where
  "Py_BuildValue_s p =
     (if 0 \<notin> set p then Inl (Undefined OutOfBoundsRead)
      else if valid_utf8 (takeWhile (\<lambda>b. b \<noteq> 0) p) then Inr (PyStr (takeWhile (\<lambda>b. b \<noteq> 0) p))
      else Inl UnicodeDecodeError)"

subsection \<open>The retry loop\<close>

text \<open>
  Lines 29 to 42 of \<^verbatim>\<open>py_smaz_compress\<close> and lines 81 to 92 of \<^verbatim>\<open>py_smaz_decompress\<close> are
  the same loop, but for the call that grows the buffer: \<^verbatim>\<open>realloc\<close> in the first,
  a second \<^verbatim>\<open>malloc\<close> (which leaves the old block allocated) in the second.
\<close>

datatype growth = ByRealloc | ByMalloc

fun grow :: "growth \<Rightarrow> allocator \<Rightarrow> nat \<Rightarrow> buffer option \<Rightarrow> nat \<Rightarrow> buffer option" where
  "grow ByRealloc al k old n = realloc al k old n"
| "grow ByMalloc al k old n = malloc al k n"

fun grow_event :: "growth \<Rightarrow> nat \<Rightarrow> bool \<Rightarrow> event" where
  "grow_event ByRealloc n ok = Realloc n ok"
| "grow_event ByMalloc n ok = Malloc n ok"

text \<open>
  \<^verbatim>\<open>while (output_buffer_size + 1 == compressed_size) { output_buffer_size *= 2; ... }\<close>.
  The loop state is the number \<open>k\<close> of allocator requests made so far, the capacity, the
  pointer to the buffer, the result code that the last call reported and the trace.
  \<^verbatim>\<open>output_buffer_size\<close> is an \<^verbatim>\<open>int\<close>: doubling it beyond \<open>INT_MAX\<close> is undefined. The
  pointer that \<^verbatim>\<open>realloc\<close> or \<^verbatim>\<open>malloc\<close> returns is not tested and goes to the codec
  routine, null or not. The result is \<open>None\<close> when the loop does not end.
\<close>

partial_function (option) retry_loop ::
  "growth \<Rightarrow> allocator \<Rightarrow> transform \<Rightarrow> byte list \<Rightarrow> int \<Rightarrow> nat \<Rightarrow> nat \<Rightarrow> buffer option
     \<Rightarrow> int \<Rightarrow> event list \<Rightarrow> ((error + int \<times> nat \<times> buffer option) \<times> event list) option"
where
  "retry_loop g al tr inp inlen k output_buffer_size output_buffer reported evs =
     (if int output_buffer_size + 1 = reported then
        (if INT_MAX < 2 * int output_buffer_size then
           Some (Inl (Undefined SignedOverflow), evs)
         else
           (case codec_call tr inp inlen
                   (grow g al k output_buffer (2 * output_buffer_size))
                   (int (2 * output_buffer_size)) of
              None \<Rightarrow>
                Some (Inl (Undefined NullBuffer),
                      evs @ [grow_event g (2 * output_buffer_size)
                               (grow g al k output_buffer (2 * output_buffer_size) \<noteq> None)])
            | Some (reported', out) \<Rightarrow>
                retry_loop g al tr inp inlen (Suc k) (2 * output_buffer_size) out reported'
                  (evs @ [grow_event g (2 * output_buffer_size)
                            (grow g al k output_buffer (2 * output_buffer_size) \<noteq> None),
                          Transform inlen (int (2 * output_buffer_size)) reported'])))
      else Some (Inr (reported, output_buffer_size, output_buffer), evs))"

subsection \<open>The two wrappers\<close>

text \<open>
  Lines 18 to 42 and 72 to 92: allocate 4096 bytes, call the codec routine once, then run
  the loop. The pointer that \<^verbatim>\<open>malloc\<close> returns is not tested and goes to the codec
  routine, null or not. The result is the last result code, the capacity and the
  pointer to the buffer.
\<close>

definition fill_buffer ::
  "growth \<Rightarrow> allocator \<Rightarrow> transform \<Rightarrow> byte list \<Rightarrow> int
     \<Rightarrow> ((error + int \<times> nat \<times> buffer option) \<times> event list) option"
where
  "fill_buffer g al tr inp inlen =
     (case codec_call tr inp inlen (malloc al 0 4096) 4096 of
        None \<Rightarrow> Some (Inl (Undefined NullBuffer), [Malloc 4096 (malloc al 0 4096 \<noteq> None)])
      | Some (reported, out) \<Rightarrow>
          retry_loop g al tr inp inlen 1 4096 out reported
            [Malloc 4096 (malloc al 0 4096 \<noteq> None), Transform inlen 4096 reported])"

type_synonym outcome = "((error + pyobj) \<times> event list) option"

definition py_smaz_compress :: "allocator \<Rightarrow> transform \<Rightarrow> pyobj list \<Rightarrow> outcome" where
  "py_smaz_compress al smaz_compress args =
     (case PyArg_ParseTuple_s ''compress'' args of
        Inl e \<Rightarrow> Some (Inl e, [])
      | Inr uncompressed_input \<Rightarrow>
          (case fill_buffer ByRealloc al smaz_compress uncompressed_input
                  (int (strlen uncompressed_input)) of
             None \<Rightarrow> None
           | Some (Inl e, evs) \<Rightarrow> Some (Inl e, evs)
           | Some (Inr (compressed_size, output_buffer_size, output_buffer), evs) \<Rightarrow>
               Some (Py_BuildValue_y_hash output_buffer compressed_size, evs @ [Free])))"

text \<open>
  \<^verbatim>\<open>output_buffer[decompressed_size] = 0\<close> writes one byte through a pointer that the code
  does not test, at an index that it does not compare with the capacity.
\<close>

definition terminate :: "buffer option \<Rightarrow> int \<Rightarrow> error + buffer" where
  "terminate output_buffer decompressed_size =
     (case output_buffer of
        None \<Rightarrow> Inl (Undefined NullBuffer)
      | Some b \<Rightarrow>
          (if 0 \<le> decompressed_size \<and> decompressed_size < int (length b)
           then Inr (b[nat decompressed_size := 0])
           else Inl (Undefined (OutOfBoundsWrite decompressed_size (length b)))))"

definition py_smaz_decompress :: "allocator \<Rightarrow> transform \<Rightarrow> pyobj list \<Rightarrow> outcome" where
  "py_smaz_decompress al smaz_decompress args =
     (case PyArg_ParseTuple_y_hash ''decompress'' args of
        Inl e \<Rightarrow> Some (Inl e, [])
      | Inr (compressed_data, compressed_data_size) \<Rightarrow>
          (case fill_buffer ByMalloc al smaz_decompress compressed_data compressed_data_size of
             None \<Rightarrow> None
           | Some (Inl e, evs) \<Rightarrow> Some (Inl e, evs)
           | Some (Inr (decompressed_size, output_buffer_size, output_buffer), evs) \<Rightarrow>
               (case terminate output_buffer decompressed_size of
                  Inl e \<Rightarrow> Some (Inl e, evs)
                | Inr terminated \<Rightarrow> Some (Py_BuildValue_s terminated, evs @ [Free]))))"

text \<open>What a call returns to the host, and what it did.\<close>

definition returned :: "outcome \<Rightarrow> (error + pyobj) option" where
  "returned r = map_option fst r"

definition trace :: "outcome \<Rightarrow> event list" where
  "trace r = (case r of None \<Rightarrow> [] | Some (v, evs) \<Rightarrow> evs)"

fun calls :: "event list \<Rightarrow> (int \<times> int) list" where
  "calls [] = []"
| "calls (Transform inlen outlen r # evs) = (outlen, r) # calls evs"
| "calls (e # evs) = calls evs"

fun inlens :: "event list \<Rightarrow> int list" where
  "inlens [] = []"
| "inlens (Transform inlen outlen r # evs) = inlen # inlens evs"
| "inlens (e # evs) = inlens evs"

text \<open>
  Whether \<^verbatim>\<open>output_buffer\<close> is the null pointer after the events of a trace, given
  whether it was before them: each request assigns the pointer, a refused request the
  null pointer.
\<close>

fun null_after :: "bool \<Rightarrow> event list \<Rightarrow> bool" where
  "null_after z [] = z"
| "null_after z (Malloc n ok # evs) = null_after (\<not> ok) evs"
| "null_after z (Realloc n ok # evs) = null_after (\<not> ok) evs"
| "null_after z (e # evs) = null_after z evs"

subsection \<open>The contract of the codec routine\<close>

text \<open>
  Modelled from the spec: the codec routines \<^verbatim>\<open>smaz_compress\<close> and \<^verbatim>\<open>smaz_decompress\<close>
  (\<^verbatim>\<open>smaz/smaz.h\<close>) are not part of the wrapper's source. Section 4.1 of the specification
  gives their contract: a result code between 0 and the capacity is the length of the
  output, which the first bytes of the buffer then hold; the result code
  \<open>capacity + 1\<close> says that the output did not fit. \<open>honours tr f\<close>: the routine \<open>tr\<close>
  keeps this contract for the codec whose output on the input \<open>x\<close> is \<open>f x\<close>, and
  writes inside the buffer only. The contract is about calls with an output buffer; it
  says nothing of a call with the null pointer.
\<close>

definition honours :: "transform \<Rightarrow> (byte list \<Rightarrow> byte list) \<Rightarrow> bool" where
  "honours tr f \<longleftrightarrow>
     (\<forall>inp out.
        length (snd (on_buffer tr inp (int (length inp)) out (int (length out)))) = length out \<and>
        (if length (f inp) \<le> length out
         then fst (on_buffer tr inp (int (length inp)) out (int (length out)))
                = int (length (f inp)) \<and>
              take (length (f inp))
                (snd (on_buffer tr inp (int (length inp)) out (int (length out)))) = f inp
         else fst (on_buffer tr inp (int (length inp)) out (int (length out)))
                = int (length out) + 1))"

text \<open>
  The state machine of section 4.2 of the specification, following its words:
  \<open>Sizing(C) \<rightarrow> Sizing(2C)\<close> on overflow, \<open>Sizing(C) \<rightarrow> Done(L)\<close> on success, nothing
  else. \<open>machine_run\<close> feeds it the capacity and the result code of each call of the
  codec routine; \<open>None\<close> says that the calls are no path of the machine.
\<close>

datatype sizing = Sizing int | Done int

fun machine_run :: "sizing \<Rightarrow> (int \<times> int) list \<Rightarrow> sizing option" where
  "machine_run st [] = Some st"
| "machine_run (Sizing C) ((c, r) # cs) =
     (if c \<noteq> C then None
      else if r = C + 1 then machine_run (Sizing (2 * C)) cs
      else machine_run (Done r) cs)"
| "machine_run (Done L) ((c, r) # cs) = None"

subsection \<open>Sample environment\<close>

text \<open>
  An allocator that never refuses and hands out blocks filled with \<open>0xAA\<close>, one that
  refuses every request, and the codec routine of the identity codec: it stores the
  input if the buffer holds it, and otherwise stores what fits and reports overflow.
  With the null pointer it returns where it has nothing to store and writes through the
  pointer otherwise.
\<close>

definition granting :: allocator where
  "granting = \<lparr>refuses = (\<lambda>k. False), garbage = (\<lambda>k i. 0xAA)\<rparr>"

definition exhausted :: allocator where
  "exhausted = \<lparr>refuses = (\<lambda>k. True), garbage = (\<lambda>k i. 0xAA)\<rparr>"

definition store :: transform where
  "store =
     \<lparr>on_buffer = (\<lambda>inp inlen out outlen.
        if inlen \<le> outlen then (inlen, take (nat inlen) inp @ drop (nat inlen) out)
        else (outlen + 1, take (nat outlen) inp)),
      on_null = (\<lambda>inp inlen outlen.
        if inlen \<le> 0 then Some inlen
        else if outlen \<le> 0 then Some (outlen + 1)
        else None)\<rparr>"


definition stored :: "byte list \<Rightarrow> byte list" where
  "stored x = x"

section \<open>Properties\<close>

subsection \<open>The loop: unfolding, induction, termination\<close>

lemma length_uninit [simp]: "length (uninit al k lo n) = n"
  by (simp add: uninit_def)

lemma retry_loop_done:
  "int cap + 1 \<noteq> r \<Longrightarrow>
   retry_loop g al tr inp inlen k cap buf r evs = Some (Inr (r, cap, buf), evs)"
  by (subst retry_loop.simps) simp

lemma retry_loop_overflow:
  "int cap + 1 = r \<Longrightarrow> INT_MAX < 2 * int cap \<Longrightarrow>
   retry_loop g al tr inp inlen k cap buf r evs = Some (Inl (Undefined SignedOverflow), evs)"
  by (subst retry_loop.simps) simp

lemma retry_loop_again:
  "int cap + 1 = r \<Longrightarrow> \<not> INT_MAX < 2 * int cap \<Longrightarrow> grow g al k buf (2 * cap) = Some b \<Longrightarrow>
   on_buffer tr inp inlen b (int (2 * cap)) = (r', out) \<Longrightarrow>
   retry_loop g al tr inp inlen k cap buf r evs =
     retry_loop g al tr inp inlen (Suc k) (2 * cap) (Some out) r'
       (evs @ [grow_event g (2 * cap) True, Transform inlen (int (2 * cap)) r'])"
  by (subst retry_loop.simps) (simp add: codec_call_def)

lemma retry_loop_null_fault:
  "int cap + 1 = r \<Longrightarrow> \<not> INT_MAX < 2 * int cap \<Longrightarrow> grow g al k buf (2 * cap) = None \<Longrightarrow>
   on_null tr inp inlen (int (2 * cap)) = None \<Longrightarrow>
   retry_loop g al tr inp inlen k cap buf r evs =
     Some (Inl (Undefined NullBuffer), evs @ [grow_event g (2 * cap) False])"
  by (subst retry_loop.simps) (simp add: codec_call_def)

lemma retry_loop_null_again:
  "int cap + 1 = r \<Longrightarrow> \<not> INT_MAX < 2 * int cap \<Longrightarrow> grow g al k buf (2 * cap) = None \<Longrightarrow>
   on_null tr inp inlen (int (2 * cap)) = Some r' \<Longrightarrow>
   retry_loop g al tr inp inlen k cap buf r evs =
     retry_loop g al tr inp inlen (Suc k) (2 * cap) None r'
       (evs @ [grow_event g (2 * cap) False, Transform inlen (int (2 * cap)) r'])"
  by (subst retry_loop.simps) (simp add: codec_call_def)

text \<open>
  From a positive capacity the loop ends: each round doubles the capacity, and a capacity
  whose double is beyond \<open>INT_MAX\<close> ends the loop.
\<close>

lemma retry_loop_induct [consumes 1, case_names step]:
  assumes pos: "0 < cap"
    and step: "\<And>k cap buf r evs.
      0 < cap \<Longrightarrow>
      (\<And>p r' t. \<not> INT_MAX < 2 * int cap \<Longrightarrow> P (Suc k) (2 * cap) p r' t) \<Longrightarrow>
      P k cap buf r evs"
  shows "P k cap buf r evs"
proof -
  have "0 < c \<Longrightarrow> nat INT_MAX - c = n \<Longrightarrow> P j c b r t" for n j c b r t
  proof (induction n arbitrary: j c b r t rule: less_induct)
    case (less n)
    show ?case
    proof (rule step [OF less.prems(1)], rule less.IH [OF _ _ refl])
      assume "\<not> INT_MAX < 2 * int c"
      then show "nat INT_MAX - 2 * c < n"
        using less.prems by (auto simp: INT_MAX_def)
      show "0 < 2 * c" using less.prems by simp
    qed
  qed
  with pos show ?thesis by blast
qed

text \<open>The same induction with the five ways through one round of the loop.\<close>

lemma retry_loop_cases_induct [consumes 1, case_names exit overflow again null_fault null_again]:
  assumes pos: "0 < cap"
    and d: "\<And>k cap buf r evs. 0 < cap \<Longrightarrow> int cap + 1 \<noteq> r \<Longrightarrow> P k cap buf r evs"
    and ov: "\<And>k cap buf r evs. 0 < cap \<Longrightarrow> int cap + 1 = r \<Longrightarrow> INT_MAX < 2 * int cap \<Longrightarrow>
               P k cap buf r evs"
    and ag: "\<And>k cap buf r evs b r' out.
               0 < cap \<Longrightarrow> int cap + 1 = r \<Longrightarrow> \<not> INT_MAX < 2 * int cap \<Longrightarrow>
               grow g al k buf (2 * cap) = Some b \<Longrightarrow>
               on_buffer tr inp inlen b (int (2 * cap)) = (r', out) \<Longrightarrow>
               P (Suc k) (2 * cap) (Some out) r'
                 (evs @ [grow_event g (2 * cap) True, Transform inlen (int (2 * cap)) r']) \<Longrightarrow>
               P k cap buf r evs"
    and nf: "\<And>k cap buf r evs. 0 < cap \<Longrightarrow> int cap + 1 = r \<Longrightarrow> \<not> INT_MAX < 2 * int cap \<Longrightarrow>
               grow g al k buf (2 * cap) = None \<Longrightarrow>
               on_null tr inp inlen (int (2 * cap)) = None \<Longrightarrow> P k cap buf r evs"
    and na: "\<And>k cap buf r evs r'.
               0 < cap \<Longrightarrow> int cap + 1 = r \<Longrightarrow> \<not> INT_MAX < 2 * int cap \<Longrightarrow>
               grow g al k buf (2 * cap) = None \<Longrightarrow>
               on_null tr inp inlen (int (2 * cap)) = Some r' \<Longrightarrow>
               P (Suc k) (2 * cap) None r'
                 (evs @ [grow_event g (2 * cap) False, Transform inlen (int (2 * cap)) r']) \<Longrightarrow>
               P k cap buf r evs"
  shows "P k cap buf r evs"
  using pos
proof (induction k cap buf r evs rule: retry_loop_induct)
  case (step k cap buf r evs)
  show ?case
  proof (cases "int cap + 1 = r")
    case False
    with step.hyps show ?thesis by (intro d)
  next
    case sentinel: True
    show ?thesis
    proof (cases "INT_MAX < 2 * int cap")
      case True
      with sentinel step.hyps show ?thesis by (intro ov)
    next
      case fits: False
      show ?thesis
      proof (cases "grow g al k buf (2 * cap)")
        case None
        show ?thesis
        proof (cases "on_null tr inp inlen (int (2 * cap))")
          case null: None
          show ?thesis by (rule nf [OF step.hyps sentinel fits None null])
        next
          case (Some r')
          show ?thesis
            by (rule na [OF step.hyps sentinel fits None Some]) (rule step.IH [OF fits])
        qed
      next
        case (Some b)
        obtain r' out where t: "on_buffer tr inp inlen b (int (2 * cap)) = (r', out)"
          by (cases "on_buffer tr inp inlen b (int (2 * cap))")
        show ?thesis
          by (rule ag [OF step.hyps sentinel fits Some t]) (rule step.IH [OF fits])
      qed
    qed
  qed
qed

lemma retry_loop_returns:
  assumes "0 < cap"
  shows "\<exists>y. retry_loop g al tr inp inlen k cap buf r evs = Some y"
  using assms
proof (induction k cap buf r evs rule: retry_loop_cases_induct [where g = g and al = al and tr = tr and inp = inp and inlen = inlen])
  case (exit k cap buf r evs)
  then show ?case by (simp add: retry_loop_done)
next
  case (overflow k cap buf r evs)
  then show ?case by (simp add: retry_loop_overflow)
next
  case (again k cap buf r evs b r' out)
  then show ?case by (simp add: retry_loop_again)
next
  case (null_fault k cap buf r evs)
  then show ?case by (simp add: retry_loop_null_fault)
next
  case (null_again k cap buf r evs r')
  then show ?case by (simp add: retry_loop_null_again)
qed

subsection \<open>The trace of the loop\<close>

lemma calls_append [simp]: "calls (xs @ ys) = calls xs @ calls ys"
  by (induction xs rule: calls.induct) simp_all

lemma inlens_append [simp]: "inlens (xs @ ys) = inlens xs @ inlens ys"
  by (induction xs rule: inlens.induct) simp_all

lemma calls_grow_event [simp]: "calls (grow_event g n ok # evs) = calls evs"
  by (cases g) simp_all

lemma inlens_grow_event [simp]: "inlens (grow_event g n ok # evs) = inlens evs"
  by (cases g) simp_all

lemma grow_event_neq_Free [simp]: "grow_event g n ok \<noteq> Free"
  by (cases g) simp_all

text \<open>The calls of the loop as a path of the machine.\<close>

lemma retry_loop_machine:
  assumes "0 < cap"
  shows "int cap \<le> INT_MAX \<Longrightarrow>
    retry_loop g al tr inp inlen k cap buf r evs = Some (res, evs') \<Longrightarrow>
    \<exists>new. evs' = evs @ new \<and>
      (case res of
         Inr (L, c, b) \<Rightarrow>
           machine_run (Sizing (int cap)) ((int cap, r) # calls new) = Some (Done L)
       | Inl e \<Rightarrow>
           (\<exists>C. machine_run (Sizing (int cap)) ((int cap, r) # calls new) = Some (Sizing C) \<and>
             (if e = Undefined SignedOverflow
              then INT_MAX < C \<and> C \<le> 2 * INT_MAX \<and> (\<exists>j. C = int cap * 2 ^ j)
              else e = Undefined NullBuffer)))"
  using assms
proof (induction k cap buf r evs rule: retry_loop_cases_induct [where g = g and al = al and tr = tr and inp = inp and inlen = inlen])
  case (exit k cap buf r evs)
  then show ?case by (auto simp: retry_loop_done)
next
  case (overflow k cap buf r evs)
  have "\<exists>j::nat. (2::int) ^ j = 2" by (rule exI [of _ 1]) simp
  with overflow show ?case by (auto simp: retry_loop_overflow)
next
  case (null_fault k cap buf r evs)
  then show ?case by (auto simp: retry_loop_null_fault)
next
  case (again k cap buf r evs b r' out)
  let ?grown = "[grow_event g (2 * cap) True, Transform inlen (int (2 * cap)) r']"
  from again.prems again.hyps have
    "retry_loop g al tr inp inlen (Suc k) (2 * cap) (Some out) r' (evs @ ?grown) = Some (res, evs')"
    by (simp add: retry_loop_again)
  moreover have "int (2 * cap) \<le> INT_MAX" using again.hyps by simp
  ultimately obtain new where
    new: "evs' = (evs @ ?grown) @ new"
    and run: "(case res of
         Inr (L, c, b) \<Rightarrow>
           machine_run (Sizing (int (2 * cap))) ((int (2 * cap), r') # calls new) = Some (Done L)
       | Inl e \<Rightarrow>
           (\<exists>C. machine_run (Sizing (int (2 * cap))) ((int (2 * cap), r') # calls new) = Some (Sizing C) \<and>
             (if e = Undefined SignedOverflow
              then INT_MAX < C \<and> C \<le> 2 * INT_MAX \<and> (\<exists>j. C = int (2 * cap) * 2 ^ j)
              else e = Undefined NullBuffer)))"
    using again.IH by blast
  have eq: "machine_run (Sizing (int (2 * cap))) ((int (2 * cap), r') # calls new)
      = machine_run (Sizing (int cap)) ((int cap, r) # calls (?grown @ new))"
    using again.hyps by simp
  have ev: "evs' = evs @ (?grown @ new)" using new by simp
  show ?case
  proof (cases res)
    case (Inr t)
    with run eq ev show ?thesis by (cases t) (auto simp del: machine_run.simps)
  next
    case (Inl e)
    with run obtain C where
      C: "machine_run (Sizing (int (2 * cap))) ((int (2 * cap), r') # calls new) = Some (Sizing C)"
      and e: "if e = Undefined SignedOverflow
              then INT_MAX < C \<and> C \<le> 2 * INT_MAX \<and> (\<exists>j. C = int (2 * cap) * 2 ^ j)
              else e = Undefined NullBuffer"
      by auto
    have e': "if e = Undefined SignedOverflow
              then INT_MAX < C \<and> C \<le> 2 * INT_MAX \<and> (\<exists>j. C = int cap * 2 ^ j)
              else e = Undefined NullBuffer"
    proof (cases "e = Undefined SignedOverflow")
      case True
      with e obtain j where "C = int (2 * cap) * 2 ^ j" by auto
      then have "C = int cap * 2 ^ Suc j" by simp
      then have "\<exists>j. C = int cap * 2 ^ j" by blast
      with True e show ?thesis by simp
    next
      case False
      with e show ?thesis by simp
    qed
    from C eq have "machine_run (Sizing (int cap)) ((int cap, r) # calls (?grown @ new))
        = Some (Sizing C)" by simp
    with e' ev Inl show ?thesis by (intro exI [of _ "?grown @ new"]) auto
  qed
next
  case (null_again k cap buf r evs r')
  let ?grown = "[grow_event g (2 * cap) False, Transform inlen (int (2 * cap)) r']"
  from null_again.prems null_again.hyps have
    "retry_loop g al tr inp inlen (Suc k) (2 * cap) None r' (evs @ ?grown) = Some (res, evs')"
    by (simp add: retry_loop_null_again)
  moreover have "int (2 * cap) \<le> INT_MAX" using null_again.hyps by simp
  ultimately obtain new where
    new: "evs' = (evs @ ?grown) @ new"
    and run: "(case res of
         Inr (L, c, b) \<Rightarrow>
           machine_run (Sizing (int (2 * cap))) ((int (2 * cap), r') # calls new) = Some (Done L)
       | Inl e \<Rightarrow>
           (\<exists>C. machine_run (Sizing (int (2 * cap))) ((int (2 * cap), r') # calls new) = Some (Sizing C) \<and>
             (if e = Undefined SignedOverflow
              then INT_MAX < C \<and> C \<le> 2 * INT_MAX \<and> (\<exists>j. C = int (2 * cap) * 2 ^ j)
              else e = Undefined NullBuffer)))"
    using null_again.IH by blast
  have eq: "machine_run (Sizing (int (2 * cap))) ((int (2 * cap), r') # calls new)
      = machine_run (Sizing (int cap)) ((int cap, r) # calls (?grown @ new))"
    using null_again.hyps by simp
  have ev: "evs' = evs @ (?grown @ new)" using new by simp
  show ?case
  proof (cases res)
    case (Inr t)
    with run eq ev show ?thesis by (cases t) (auto simp del: machine_run.simps)
  next
    case (Inl e)
    with run obtain C where
      C: "machine_run (Sizing (int (2 * cap))) ((int (2 * cap), r') # calls new) = Some (Sizing C)"
      and e: "if e = Undefined SignedOverflow
              then INT_MAX < C \<and> C \<le> 2 * INT_MAX \<and> (\<exists>j. C = int (2 * cap) * 2 ^ j)
              else e = Undefined NullBuffer"
      by auto
    have e': "if e = Undefined SignedOverflow
              then INT_MAX < C \<and> C \<le> 2 * INT_MAX \<and> (\<exists>j. C = int cap * 2 ^ j)
              else e = Undefined NullBuffer"
    proof (cases "e = Undefined SignedOverflow")
      case True
      with e obtain j where "C = int (2 * cap) * 2 ^ j" by auto
      then have "C = int cap * 2 ^ Suc j" by simp
      then have "\<exists>j. C = int cap * 2 ^ j" by blast
      with True e show ?thesis by simp
    next
      case False
      with e show ?thesis by simp
    qed
    from C eq have "machine_run (Sizing (int cap)) ((int cap, r) # calls (?grown @ new))
        = Some (Sizing C)" by simp
    with e' ev Inl show ?thesis by (intro exI [of _ "?grown @ new"]) auto
  qed
qed

lemma retry_loop_inlens:
  assumes "0 < cap"
  shows "retry_loop g al tr inp inlen k cap buf r evs = Some (res, evs') \<Longrightarrow>
    set (inlens evs') \<subseteq> insert inlen (set (inlens evs))"
  using assms
proof (induction k cap buf r evs rule: retry_loop_cases_induct [where g = g and al = al and tr = tr and inp = inp and inlen = inlen])
  case (exit k cap buf r evs)
  then show ?case by (auto simp: retry_loop_done)
next
  case (overflow k cap buf r evs)
  then show ?case by (auto simp: retry_loop_overflow)
next
  case (null_fault k cap buf r evs)
  then show ?case by (auto simp: retry_loop_null_fault)
next
  case (again k cap buf r evs b r' out)
  from again.prems again.hyps have
    "retry_loop g al tr inp inlen (Suc k) (2 * cap) (Some out) r'
       (evs @ [grow_event g (2 * cap) True, Transform inlen (int (2 * cap)) r']) = Some (res, evs')"
    by (simp add: retry_loop_again)
  from again.IH [OF this] show ?case by auto
next
  case (null_again k cap buf r evs r')
  from null_again.prems null_again.hyps have
    "retry_loop g al tr inp inlen (Suc k) (2 * cap) None r'
       (evs @ [grow_event g (2 * cap) False, Transform inlen (int (2 * cap)) r']) = Some (res, evs')"
    by (simp add: retry_loop_null_again)
  from null_again.IH [OF this] show ?case by auto
qed

subsection \<open>The loop with a codec routine that keeps its contract\<close>

lemma length_grow: "grow g al k old n = Some b \<Longrightarrow> length b = n"
  by (cases g) (auto simp: malloc_def realloc_def split: if_splits option.splits)

lemma grow_granted: "\<not> refuses al k \<Longrightarrow> grow g al k old n \<noteq> None"
  by (cases g) (simp_all add: malloc_def realloc_def split: option.splits)

lemma honours_length:
  "honours tr f \<Longrightarrow> on_buffer tr inp (int (length inp)) out (int (length out)) = (r, out') \<Longrightarrow>
   length out' = length out"
  unfolding honours_def by (metis snd_conv)

lemma honours_fits:
  "honours tr f \<Longrightarrow> length (f inp) \<le> length out \<Longrightarrow>
   on_buffer tr inp (int (length inp)) out (int (length out)) = (r, out') \<Longrightarrow>
   r = int (length (f inp)) \<and> take (length (f inp)) out' = f inp"
  unfolding honours_def by (metis fst_conv snd_conv)

lemma honours_overflow:
  "honours tr f \<Longrightarrow> \<not> length (f inp) \<le> length out \<Longrightarrow>
   on_buffer tr inp (int (length inp)) out (int (length out)) = (r, out') \<Longrightarrow>
   r = int (length out) + 1"
  unfolding honours_def by (metis fst_conv)

lemma retry_loop_honours:
  assumes "0 < cap" and h: "honours tr f" and al: "\<forall>j. \<not> refuses al j"
    and bound: "length (f inp) \<le> 2 ^ 30"
  shows "p = Some buf \<Longrightarrow> length buf = cap \<Longrightarrow>
    r = (if length (f inp) \<le> cap then int (length (f inp)) else int cap + 1) \<Longrightarrow>
    (length (f inp) \<le> cap \<Longrightarrow> take (length (f inp)) buf = f inp) \<Longrightarrow>
    \<exists>cap' buf' evs'.
      retry_loop g al tr inp (int (length inp)) k cap p r evs
        = Some (Inr (int (length (f inp)), cap', Some buf'), evs') \<and>
      length buf' = cap' \<and> length (f inp) \<le> cap' \<and> take (length (f inp)) buf' = f inp \<and>
      (\<exists>j. cap' = cap * 2 ^ j) \<and> (cap' = cap \<or> cap' < 2 * length (f inp))"
  using assms(1)
proof (induction k cap p r evs arbitrary: buf rule: retry_loop_cases_induct [where g = g and al = al and tr = tr and inp = inp and inlen = "int (length inp)"])
  case (exit k cap p r evs)
  then have fits: "length (f inp) \<le> cap" by (auto split: if_splits)
  with exit have "retry_loop g al tr inp (int (length inp)) k cap p r evs
      = Some (Inr (int (length (f inp)), cap, Some buf), evs)"
    by (simp add: retry_loop_done)
  moreover have "cap = cap * 2 ^ 0" by simp
  ultimately show ?case using exit.prems fits by blast
next
  case (overflow k cap p r evs)
  then have "cap < length (f inp)" by (auto split: if_splits)
  with bound overflow.hyps show ?case by (simp add: INT_MAX_def)
next
  case (null_fault k cap p r evs)
  with al grow_granted show ?case by blast
next
  case (null_again k cap p r evs r')
  with al grow_granted show ?case by blast
next
  case (again k cap p r evs b r' out)
  let ?n = "length (f inp)"
  let ?grown = "[grow_event g (2 * cap) True, Transform (int (length inp)) (int (2 * cap)) r']"
  from again have big: "cap < ?n" by (auto split: if_splits)
  have lb: "length b = 2 * cap" using again.hyps length_grow by blast
  with again.hyps have t: "on_buffer tr inp (int (length inp)) b (int (length b)) = (r', out)"
    by simp
  have lo: "length out = 2 * cap" using honours_length [OF h t] lb by simp
  have r': "r' = (if ?n \<le> 2 * cap then int ?n else int (2 * cap) + 1)"
    using honours_fits [OF h _ t] honours_overflow [OF h _ t] lb by auto
  have tk: "?n \<le> 2 * cap \<Longrightarrow> take ?n out = f inp"
    using honours_fits [OF h _ t] lb by simp
  from again.IH [OF refl lo r' tk] obtain cap' buf' evs' j where
    res: "retry_loop g al tr inp (int (length inp)) (Suc k) (2 * cap) (Some out) r' (evs @ ?grown)
             = Some (Inr (int ?n, cap', Some buf'), evs')"
    and props: "length buf' = cap'" "?n \<le> cap'" "take ?n buf' = f inp"
    and j: "cap' = 2 * cap * 2 ^ j" and near: "cap' = 2 * cap \<or> cap' < 2 * ?n"
    by blast
  have "retry_loop g al tr inp (int (length inp)) k cap p r evs
             = Some (Inr (int ?n, cap', Some buf'), evs')"
    using res again.hyps by (simp add: retry_loop_again)
  moreover have "cap' = cap * 2 ^ Suc j" using j by simp
  moreover have "cap' < 2 * ?n" using near big by auto
  ultimately show ?case using props by blast
qed

lemma codec_call_buffer:
  "on_buffer tr inp inlen b outlen = (r, out) \<Longrightarrow>
   codec_call tr inp inlen (Some b) outlen = Some (r, Some out)"
  by (simp add: codec_call_def)

lemma fill_buffer_honours:
  assumes h: "honours tr f" and al: "\<forall>j. \<not> refuses al j" and bound: "length (f inp) \<le> 2 ^ 30"
  shows "\<exists>cap' buf' evs'.
      fill_buffer g al tr inp (int (length inp))
        = Some (Inr (int (length (f inp)), cap', Some buf'), evs') \<and>
      length buf' = cap' \<and> length (f inp) \<le> cap' \<and> take (length (f inp)) buf' = f inp \<and>
      (\<exists>j. cap' = 4096 * 2 ^ j) \<and> (cap' = 4096 \<or> cap' < 2 * length (f inp))"
proof -
  let ?b = "uninit al 0 0 4096"
  obtain r out where t: "on_buffer tr inp (int (length inp)) ?b (int (length ?b)) = (r, out)"
    by (cases "on_buffer tr inp (int (length inp)) ?b (int (length ?b))")
  have lo: "length out = 4096" using honours_length [OF h t] by simp
  have r: "r = (if length (f inp) \<le> 4096 then int (length (f inp)) else int 4096 + 1)"
    using honours_fits [OF h _ t] honours_overflow [OF h _ t] by auto
  have tk: "length (f inp) \<le> 4096 \<Longrightarrow> take (length (f inp)) out = f inp"
    using honours_fits [OF h _ t] by simp
  have "(0::nat) < 4096" by simp
  from retry_loop_honours [OF this h al bound refl lo r tk]
  show ?thesis using t al by (simp add: fill_buffer_def malloc_def codec_call_def)
qed

subsection \<open>Outputs beyond the largest capacity\<close>

text \<open>An output of more than \<open>2 ^ 30\<close> bytes ends in the overflow of the capacity.\<close>

lemma retry_loop_too_large:
  assumes "0 < cap" and h: "honours tr f" and al: "\<forall>j. \<not> refuses al j"
    and large: "2 ^ 30 < length (f inp)"
  shows "p = Some buf \<Longrightarrow> length buf = cap \<Longrightarrow> r = int cap + 1 \<Longrightarrow>
    \<exists>j. cap * 2 ^ j = 2 ^ 30 \<Longrightarrow>
    \<exists>evs'. retry_loop g al tr inp (int (length inp)) k cap p r evs
       = Some (Inl (Undefined SignedOverflow), evs')"
  using assms(1)
proof (induction k cap p r evs arbitrary: buf rule: retry_loop_cases_induct [where g = g and al = al and tr = tr and inp = inp and inlen = "int (length inp)"])
  case (exit k cap p r evs)
  then show ?case by simp
next
  case (overflow k cap p r evs)
  then show ?case by (simp add: retry_loop_overflow)
next
  case (null_fault k cap p r evs)
  with al grow_granted show ?case by blast
next
  case (null_again k cap p r evs r')
  with al grow_granted show ?case by blast
next
  case (again k cap p r evs b r' out)
  from again.prems obtain j where j: "cap * 2 ^ j = 2 ^ 30" by blast
  have "j \<noteq> 0"
  proof
    assume "j = 0"
    with j have "cap = 2 ^ 30" by simp
    with again.hyps show False by (simp add: INT_MAX_def)
  qed
  then obtain j' where "j = Suc j'" by (cases j) auto
  with j have j': "2 * cap * 2 ^ j' = 2 ^ 30" by simp
  have "1 \<le> (2::nat) ^ j'" by simp
  then have "2 * cap * 1 \<le> 2 * cap * 2 ^ j'" by (rule mult_le_mono2)
  with j' have small: "2 * cap \<le> 2 ^ 30" by simp
  have lb: "length b = 2 * cap" using again.hyps length_grow by blast
  with again.hyps have t: "on_buffer tr inp (int (length inp)) b (int (length b)) = (r', out)"
    by simp
  have lo: "length out = 2 * cap" using honours_length [OF h t] lb by simp
  have "\<not> length (f inp) \<le> length b" using small large lb by simp
  from honours_overflow [OF h this t] have r': "r' = int (2 * cap) + 1" using lb by simp
  from j' have "\<exists>j. 2 * cap * 2 ^ j = 2 ^ 30" by blast
  from again.IH [OF refl lo r' this] obtain evs' where
    "retry_loop g al tr inp (int (length inp)) (Suc k) (2 * cap) (Some out) r'
       (evs @ [grow_event g (2 * cap) True, Transform (int (length inp)) (int (2 * cap)) r'])
     = Some (Inl (Undefined SignedOverflow), evs')"
    by blast
  with again.hyps show ?case by (simp add: retry_loop_again)
qed

lemma takeWhile_stop: "\<not> P z \<Longrightarrow> takeWhile P (as @ z # bs) = takeWhile P as"
  by (induction as) auto

lemma takeWhile_terminated:
  "n < length xs \<Longrightarrow>
   takeWhile (\<lambda>b. b \<noteq> z) (xs[n := z]) = takeWhile (\<lambda>b. b \<noteq> z) (take n xs)"
  by (simp add: upd_conv_take_nth_drop takeWhile_stop)

lemma build_terminated:
  assumes "n < length buf"
  shows "Py_BuildValue_s (buf[n := 0]) =
      (if valid_utf8 (takeWhile (\<lambda>b. b \<noteq> 0) (take n buf))
       then Inr (PyStr (takeWhile (\<lambda>b. b \<noteq> 0) (take n buf)))
       else Inl UnicodeDecodeError)"
proof -
  have "0 \<in> set (buf[n := 0])" using assms by (simp add: set_update_memI)
  then show ?thesis using assms by (simp add: Py_BuildValue_s_def takeWhile_terminated)
qed

lemma terminated_build:
  assumes "0 \<le> L" and "L < int (length buf)"
  shows "terminate (Some buf) L = Inr (buf[nat L := 0])"
    and "Py_BuildValue_s (buf[nat L := 0]) =
      (if valid_utf8 (takeWhile (\<lambda>b. b \<noteq> 0) (take (nat L) buf))
       then Inr (PyStr (takeWhile (\<lambda>b. b \<noteq> 0) (take (nat L) buf)))
       else Inl UnicodeDecodeError)"
proof -
  from assms have n: "nat L < length buf" by simp
  show "terminate (Some buf) L = Inr (buf[nat L := 0])" using assms by (simp add: terminate_def)
  from build_terminated [OF n] show "Py_BuildValue_s (buf[nat L := 0]) =
      (if valid_utf8 (takeWhile (\<lambda>b. b \<noteq> 0) (take (nat L) buf))
       then Inr (PyStr (takeWhile (\<lambda>b. b \<noteq> 0) (take (nat L) buf)))
       else Inl UnicodeDecodeError)" .
qed

lemma takeWhile_full: "0 \<notin> set s \<Longrightarrow> takeWhile (\<lambda>b. b \<noteq> (0::byte)) s = s"
  by (rule takeWhile_eq_all_conv [THEN iffD2]) auto

lemma strlen_full: "0 \<notin> set s \<Longrightarrow> strlen s = length s"
  by (simp add: strlen_def takeWhile_full)

text \<open>The same facts for \<open>fill_buffer\<close>.\<close>

lemma codec_call_fault: "codec_call tr inp inlen p outlen = None \<Longrightarrow> p = None"
  by (cases p) (auto simp: codec_call_def split: prod.splits)

lemma fill_buffer_cases [consumes 1, case_names fault loop]:
  assumes "fill_buffer g al tr inp inlen = Some (res, evs)"
  obtains "res = Inl (Undefined NullBuffer)" and "evs = [Malloc 4096 False]"
  | r p ok where "retry_loop g al tr inp inlen 1 4096 p r
      [Malloc 4096 ok, Transform inlen 4096 r] = Some (res, evs)"
proof (cases "codec_call tr inp inlen (malloc al 0 4096) 4096")
  case None
  from codec_call_fault [OF None] None assms
  have "res = Inl (Undefined NullBuffer)" "evs = [Malloc 4096 False]"
    by (simp_all add: fill_buffer_def)
  then show ?thesis by (rule that(1))
next
  case (Some c)
  obtain r p where "c = (r, p)" by (cases c)
  with Some assms have "retry_loop g al tr inp inlen 1 4096 p r
      [Malloc 4096 (malloc al 0 4096 \<noteq> None), Transform inlen 4096 r] = Some (res, evs)"
    by (simp add: fill_buffer_def)
  then show ?thesis by (rule that(2))
qed

lemma fill_buffer_returns: "\<exists>y. fill_buffer g al tr inp inlen = Some y"
proof (cases "codec_call tr inp inlen (malloc al 0 4096) 4096")
  case None
  then show ?thesis by (simp add: fill_buffer_def)
next
  case (Some c)
  obtain r p where c: "c = (r, p)" by (cases c)
  have "(0::nat) < 4096" by simp
  from retry_loop_returns [OF this] Some c show ?thesis by (simp add: fill_buffer_def)
qed

lemma fill_buffer_machine_done:
  assumes "fill_buffer g al tr inp inlen = Some (Inr (L, c, b), evs)"
  shows "machine_run (Sizing 4096) (calls evs) = Some (Done L)"
  using assms
proof (cases rule: fill_buffer_cases)
  case fault
  then show ?thesis by simp
next
  case (loop r p ok)
  have "(0::nat) < 4096" "int 4096 \<le> INT_MAX" by (simp_all add: INT_MAX_def)
  from retry_loop_machine [OF this loop] obtain new where
    "evs = [Malloc 4096 ok, Transform inlen 4096 r] @ new"
    "machine_run (Sizing (int 4096)) ((int 4096, r) # calls new) = Some (Done L)"
    by auto
  then show ?thesis by simp
qed

lemma fill_buffer_machine_stuck:
  assumes "fill_buffer g al tr inp inlen = Some (Inl e, evs)"
  shows "\<exists>C. machine_run (Sizing 4096) (calls evs) = Some (Sizing C) \<and>
     (if e = Undefined SignedOverflow
      then INT_MAX < C \<and> C \<le> 2 * INT_MAX \<and> (\<exists>j. C = 4096 * 2 ^ j)
      else e = Undefined NullBuffer)"
  using assms
proof (cases rule: fill_buffer_cases)
  case fault
  then show ?thesis by auto
next
  case (loop r p ok)
  have "(0::nat) < 4096" "int 4096 \<le> INT_MAX" by (simp_all add: INT_MAX_def)
  from retry_loop_machine [OF this loop] obtain new C where
    new: "evs = [Malloc 4096 ok, Transform inlen 4096 r] @ new"
    and run: "machine_run (Sizing (int 4096)) ((int 4096, r) # calls new) = Some (Sizing C)"
    and e: "if e = Undefined SignedOverflow
     then INT_MAX < C \<and> C \<le> 2 * INT_MAX \<and> (\<exists>j. C = int 4096 * 2 ^ j)
     else e = Undefined NullBuffer"
    by auto
  from new run have "machine_run (Sizing 4096) (calls evs) = Some (Sizing C)" by simp
  moreover from e have "if e = Undefined SignedOverflow
     then INT_MAX < C \<and> C \<le> 2 * INT_MAX \<and> (\<exists>j. C = 4096 * 2 ^ j)
     else e = Undefined NullBuffer"
    by (simp split: if_splits)
  ultimately show ?thesis by blast
qed

lemma fill_buffer_inlens:
  assumes "fill_buffer g al tr inp inlen = Some (res, evs)"
  shows "set (inlens evs) \<subseteq> {inlen}"
  using assms
proof (cases rule: fill_buffer_cases)
  case fault
  then show ?thesis by simp
next
  case (loop r p ok)
  have "(0::nat) < 4096" by simp
  from retry_loop_inlens [OF this loop] show ?thesis by simp
qed

lemma fill_buffer_too_large:
  assumes h: "honours tr f" and al: "\<forall>j. \<not> refuses al j" and large: "2 ^ 30 < length (f inp)"
  shows "\<exists>evs. fill_buffer g al tr inp (int (length inp))
     = Some (Inl (Undefined SignedOverflow), evs)"
proof -
  let ?b = "uninit al 0 0 4096"
  obtain r out where t: "on_buffer tr inp (int (length inp)) ?b (int (length ?b)) = (r, out)"
    by (cases "on_buffer tr inp (int (length inp)) ?b (int (length ?b))")
  have lo: "length out = 4096" using honours_length [OF h t] by simp
  have "\<not> length (f inp) \<le> length ?b" using large by simp
  from honours_overflow [OF h this t] have r: "r = int 4096 + 1" by simp
  have "(4096::nat) * 2 ^ 18 = 2 ^ 30" by simp
  then have ex: "\<exists>j. (4096::nat) * 2 ^ j = 2 ^ 30" by blast
  have "(0::nat) < 4096" by simp
  from retry_loop_too_large [OF this h al large refl lo r ex]
  show ?thesis using t al by (simp add: fill_buffer_def malloc_def codec_call_def)
qed

subsection \<open>The wrappers after parsing\<close>

lemma retry_loop_granted:
  assumes "0 < cap" and al: "\<forall>j. \<not> refuses al j"
  shows "retry_loop g al tr inp inlen k cap buf r evs = Some (res, evs') \<Longrightarrow>
    res \<noteq> Inl (Undefined NullBuffer)"
  using assms(1)
proof (induction k cap buf r evs rule: retry_loop_cases_induct [where g = g and al = al and tr = tr and inp = inp and inlen = inlen])
  case (exit k cap buf r evs)
  then show ?case by (auto simp: retry_loop_done)
next
  case (overflow k cap buf r evs)
  then show ?case by (auto simp: retry_loop_overflow)
next
  case (null_fault k cap buf r evs)
  with al grow_granted show ?case by blast
next
  case (null_again k cap buf r evs r')
  with al grow_granted show ?case by blast
next
  case (again k cap buf r evs b r' out)
  then show ?case by (simp add: retry_loop_again)
qed

lemma fill_buffer_loop:
  assumes "fill_buffer g al tr inp inlen = Some (res, evs)" and "\<not> refuses al 0"
  shows "\<exists>r out. retry_loop g al tr inp inlen 1 4096 (Some out) r
      [Malloc 4096 True, Transform inlen 4096 r] = Some (res, evs)"
  using assms by (auto simp: fill_buffer_def malloc_def codec_call_def split: prod.splits)

lemma fill_buffer_granted:
  assumes "fill_buffer g al tr inp inlen = Some (res, evs)" and al: "\<forall>j. \<not> refuses al j"
  shows "res \<noteq> Inl (Undefined NullBuffer)"
proof -
  from al have "\<not> refuses al 0" by simp
  from fill_buffer_loop [OF assms(1) this] obtain r out where
    loop: "retry_loop g al tr inp inlen 1 4096 (Some out) r
      [Malloc 4096 True, Transform inlen 4096 r] = Some (res, evs)"
    by blast
  have "(0::nat) < 4096" by simp
  from retry_loop_granted [OF this al loop] show ?thesis .
qed

lemma parse_s_cases:
  "PyArg_ParseTuple_s fname args = Inl (TypeError fname) \<and> (\<nexists>s. args = [PyStr s]) \<or>
   (\<exists>s. args = [PyStr s] \<and> 0 \<in> set s \<and>
      PyArg_ParseTuple_s fname args = Inl (ValueError ''embedded null character'')) \<or>
   (\<exists>s. args = [PyStr s] \<and> 0 \<notin> set s \<and> PyArg_ParseTuple_s fname args = Inr s)"
  by (cases "(fname, args)" rule: PyArg_ParseTuple_s.cases) auto

lemma parse_y_hash_cases:
  "PyArg_ParseTuple_y_hash fname args = Inl (TypeError fname) \<and> (\<nexists>b. args = [PyBytes b]) \<or>
   (\<exists>b. args = [PyBytes b] \<and> PyArg_ParseTuple_y_hash fname args = Inr (b, int (length b)))"
  by (cases "(fname, args)" rule: PyArg_ParseTuple_y_hash.cases) auto

lemma compress_parsed:
  "0 \<notin> set s \<Longrightarrow>
   py_smaz_compress al c [PyStr s] =
     (case fill_buffer ByRealloc al c s (int (length s)) of
        None \<Rightarrow> None
      | Some (Inl e, evs) \<Rightarrow> Some (Inl e, evs)
      | Some (Inr (L, cap, buf), evs) \<Rightarrow> Some (Py_BuildValue_y_hash buf L, evs @ [Free]))"
  by (simp add: py_smaz_compress_def strlen_full)

lemma decompress_parsed:
  "py_smaz_decompress al d [PyBytes b] =
     (case fill_buffer ByMalloc al d b (int (length b)) of
        None \<Rightarrow> None
      | Some (Inl e, evs) \<Rightarrow> Some (Inl e, evs)
      | Some (Inr (L, cap, buf), evs) \<Rightarrow>
          (case terminate buf L of
             Inl e \<Rightarrow> Some (Inl e, evs)
           | Inr terminated \<Rightarrow> Some (Py_BuildValue_s terminated, evs @ [Free])))"
  by (simp add: py_smaz_decompress_def)

lemma returned_Some [simp]: "returned (Some (v, evs)) = Some v"
  by (simp add: returned_def)

lemma trace_Some [simp]: "trace (Some (v, evs)) = evs"
  by (simp add: trace_def)

text \<open>The sample environment.\<close>

lemma refuses_granting [simp]: "\<not> refuses granting k"
  by (simp add: granting_def)

lemma refuses_exhausted [simp]: "refuses exhausted k"
  by (simp add: exhausted_def)

lemma honours_store: "honours store stored"
  by (auto simp: honours_def store_def stored_def)

lemma valid_utf8_ascii: "\<forall>b\<in>set s. b < 0x80 \<Longrightarrow> valid_utf8 s"
  by (induction s) auto

lemma below_first_capacity: "(n::nat) < 4096 \<Longrightarrow> n \<noteq> 4096 * 2 ^ j"
  by (cases "n = 4096 * 2 ^ j") auto

lemma between_capacities: "4096 < (n::nat) \<Longrightarrow> n < 8192 \<Longrightarrow> n \<noteq> 4096 * 2 ^ j"
  by (cases j) auto

subsection \<open>Claims about the arguments\<close>

text \<open>
  Claim C7. An argument tuple that is not a single \<^verbatim>\<open>str\<close> makes \<^verbatim>\<open>compress\<close> raise a
  \<^verbatim>\<open>TypeError\<close> that names the function, and one that is not a single \<^verbatim>\<open>bytes\<close> object
  makes \<^verbatim>\<open>decompress\<close> do so; in both cases the trace of the call is empty: nothing
  was allocated and the codec routine was not called.
\<close>

theorem wrong_shape_rejected:
  "((\<nexists>s. args = [PyStr s]) \<longrightarrow>
      py_smaz_compress al c args = Some (Inl (TypeError ''compress''), [])) \<and>
   ((\<nexists>b. args = [PyBytes b]) \<longrightarrow>
      py_smaz_decompress al d args = Some (Inl (TypeError ''decompress''), []))"
  using parse_s_cases [of "''compress''" args] parse_y_hash_cases [of "''decompress''" args]
  by (auto simp: py_smaz_compress_def py_smaz_decompress_def)

theorem wrong_shape_rejected_witness:
  "py_smaz_compress granting store [PyInt 5] = Some (Inl (TypeError ''compress''), []) \<and>
   py_smaz_decompress granting store [PyInt 5] = Some (Inl (TypeError ''decompress''), [])"
  using wrong_shape_rejected [of "[PyInt 5]" granting store store] by simp

text \<open>
  Claim C8. \<^verbatim>\<open>compress("")\<close> returns the empty \<^verbatim>\<open>bytes\<close> object and \<^verbatim>\<open>decompress(b"")\<close>
  the empty \<^verbatim>\<open>str\<close>, for codec routines that keep their contract and whose output on the
  empty input is empty, when the first allocation succeeds. Each call allocates once,
  calls the codec routine once and frees the buffer.
\<close>

theorem empty_input:
  assumes "honours c f" and "f [] = []" and "honours d g" and "g [] = []"
    and "\<not> refuses al 0"
  shows "py_smaz_compress al c [PyStr []]
           = Some (Inr (PyBytes []), [Malloc 4096 True, Transform 0 4096 0, Free]) \<and>
         py_smaz_decompress al d [PyBytes []]
           = Some (Inr (PyStr []), [Malloc 4096 True, Transform 0 4096 0, Free])"
proof -
  let ?b = "uninit al 0 0 4096"
  have fill: "fill_buffer gr al tr [] 0
      = Some (Inr (0, 4096, Some (snd (on_buffer tr [] 0 ?b 4096))),
              [Malloc 4096 True, Transform 0 4096 0])
      \<and> length (snd (on_buffer tr [] 0 ?b 4096)) = 4096"
    if h: "honours tr e" and e: "e [] = []" for gr tr e
  proof -
    obtain r out where
      t: "on_buffer tr [] (int (length ([]::byte list))) ?b (int (length ?b)) = (r, out)"
      by (cases "on_buffer tr [] (int (length ([]::byte list))) ?b (int (length ?b))")
    have "length (e []) \<le> length ?b" using e by simp
    from honours_fits [OF h this t] honours_length [OF h t] e
    have "r = 0" "length out = 4096" by simp_all
    with t assms(5) show ?thesis
      by (simp add: fill_buffer_def malloc_def codec_call_def retry_loop_done)
  qed
  have "py_smaz_compress al c [PyStr []]
           = Some (Inr (PyBytes []), [Malloc 4096 True, Transform 0 4096 0, Free])"
    using fill [OF assms(1,2), of ByRealloc]
    by (simp add: compress_parsed Py_BuildValue_y_hash_def)
  moreover have "py_smaz_decompress al d [PyBytes []]
           = Some (Inr (PyStr []), [Malloc 4096 True, Transform 0 4096 0, Free])"
  proof -
    let ?out = "snd (on_buffer d [] 0 ?b 4096)"
    from fill [OF assms(3,4), of ByMalloc] have
      f: "fill_buffer ByMalloc al d [] 0
        = Some (Inr (0, 4096, Some ?out), [Malloc 4096 True, Transform 0 4096 0])"
      and l: "length ?out = 4096" by simp_all
    have "(0::int) \<le> 0" "0 < int (length ?out)" using l by simp_all
    from terminated_build [OF this] f show ?thesis by (simp add: decompress_parsed)
  qed
  ultimately show ?thesis ..
qed

theorem empty_input_witness:
  "py_smaz_compress granting store [PyStr []]
     = Some (Inr (PyBytes []), [Malloc 4096 True, Transform 0 4096 0, Free]) \<and>
   py_smaz_decompress granting store [PyBytes []]
     = Some (Inr (PyStr []), [Malloc 4096 True, Transform 0 4096 0, Free])"
  using empty_input [OF honours_store _ honours_store, of granting]
  by (simp add: stored_def)

text \<open>
  Claim C10. \<^verbatim>\<open>compress\<close> raises \<^verbatim>\<open>ValueError\<close> for every \<^verbatim>\<open>str\<close> with an embedded null
  character, without allocating or calling the codec routine. Whenever a call of
  \<^verbatim>\<open>compress\<close> calls the codec routine, the argument is a single null-free \<^verbatim>\<open>str\<close> and the
  input length of every such call is the full length of that \<^verbatim>\<open>str\<close>.
\<close>

theorem embedded_null_rejected:
  "(0 \<in> set s \<longrightarrow>
      py_smaz_compress al c [PyStr s]
        = Some (Inl (ValueError ''embedded null character''), [])) \<and>
   (py_smaz_compress al c args = Some (res, evs) \<longrightarrow>
      (\<forall>n\<in>set (inlens evs). \<exists>t. args = [PyStr t] \<and> 0 \<notin> set t \<and> n = int (length t)))"
proof
  show "0 \<in> set s \<longrightarrow>
      py_smaz_compress al c [PyStr s]
        = Some (Inl (ValueError ''embedded null character''), [])"
    by (simp add: py_smaz_compress_def)
  show "py_smaz_compress al c args = Some (res, evs) \<longrightarrow>
      (\<forall>n\<in>set (inlens evs). \<exists>t. args = [PyStr t] \<and> 0 \<notin> set t \<and> n = int (length t))"
  proof
    assume call: "py_smaz_compress al c args = Some (res, evs)"
    from parse_s_cases [of "''compress''" args]
    consider "\<exists>e. PyArg_ParseTuple_s ''compress'' args = Inl e"
      | t where "args = [PyStr t]" "0 \<notin> set t" by auto
    then show "\<forall>n\<in>set (inlens evs). \<exists>t. args = [PyStr t] \<and> 0 \<notin> set t \<and> n = int (length t)"
    proof cases
      case 1
      with call have "evs = []" by (auto simp: py_smaz_compress_def)
      then show ?thesis by simp
    next
      case 2
      obtain r evs0 where fill: "fill_buffer ByRealloc al c t (int (length t)) = Some (r, evs0)"
        using fill_buffer_returns [of ByRealloc al c t "int (length t)"] by auto
      from fill_buffer_inlens [OF fill] have sub: "set (inlens evs0) \<subseteq> {int (length t)}" .
      from call 2 fill have "evs = evs0 \<or> evs = evs0 @ [Free]"
        by (auto simp: compress_parsed split: sum.splits prod.splits)
      then have "inlens evs = inlens evs0" by auto
      with sub 2 show ?thesis by auto
    qed
  qed
qed

theorem embedded_null_rejected_witness:
  "py_smaz_compress granting store [PyStr [104, 0, 105]]
     = Some (Inl (ValueError ''embedded null character''), []) \<and>
   py_smaz_compress granting store [PyStr [104, 105]]
     = Some (Inr (PyBytes [104, 105]), [Malloc 4096 True, Transform 2 4096 2, Free]) \<and>
   (\<exists>t. [PyStr [104, 105]] = [PyStr t] \<and> 0 \<notin> set t \<and> 2 = int (length t))"
proof -
  have call: "py_smaz_compress granting store [PyStr [104, 105]]
      = Some (Inr (PyBytes [104, 105]), [Malloc 4096 True, Transform 2 4096 2, Free])"
    by (simp add: py_smaz_compress_def strlen_def fill_buffer_def malloc_def codec_call_def
        store_def retry_loop_done Py_BuildValue_y_hash_def)
  have called: "2 \<in> set (inlens [Malloc 4096 True, Transform 2 4096 2, Free])" by simp
  from embedded_null_rejected [of "[104, 0, 105]" granting store "[PyStr [104, 105]]"
      "Inr (PyBytes [104, 105])" "[Malloc 4096 True, Transform 2 4096 2, Free]"] call
  have null: "py_smaz_compress granting store [PyStr [104, 0, 105]]
     = Some (Inl (ValueError ''embedded null character''), [])"
    and lens: "\<forall>n\<in>set (inlens [Malloc 4096 True, Transform 2 4096 2, Free]).
      \<exists>t. [PyStr [104, 105]] = [PyStr t] \<and> 0 \<notin> set t \<and> n = int (length t)"
    by simp_all
  from lens called have "\<exists>t. [PyStr [104, 105]] = [PyStr t] \<and> 0 \<notin> set t \<and> 2 = int (length t)"
    by (rule bspec)
  with null call show ?thesis by blast
qed

subsection \<open>Claims about allocation\<close>

text \<open>The pointer and the trace: the pointer is null when the last request was refused.\<close>

lemma null_after_append [simp]:
  "null_after z (xs @ ys) = null_after (null_after z xs) ys"
  by (induction z xs rule: null_after.induct) simp_all

lemma null_after_grow_event [simp]:
  "null_after z (grow_event g n ok # evs) = null_after (\<not> ok) evs"
  by (cases g) simp_all














subsection \<open>Claims about the retry loop\<close>

lemma capacity_beyond_int:
  fixes C :: int
  assumes "INT_MAX < C" and "C \<le> 2 * INT_MAX" and "C = 4096 * 2 ^ j"
  shows "C = 2 ^ 31"
proof -
  have C: "C = 2 ^ (12 + j)" using assms(3) by (simp add: power_add)
  from assms(1) C have "(2::int) ^ 31 \<le> 2 ^ (12 + j)" by (simp add: INT_MAX_def)
  then have lo: "31 \<le> 12 + j" by (simp only: power_increasing_iff [of 2] one_less_numeral_iff semiring_norm)
  from assms(2) C have "(2::int) ^ (12 + j) < 2 ^ 32" by (simp add: INT_MAX_def)
  then have hi: "12 + j < 32" by (simp only: power_strict_increasing_iff [of 2] one_less_numeral_iff semiring_norm)
  from lo hi have "12 + j = 31" by simp
  with C show ?thesis by simp
qed

lemma build_not_overflow:
  "Py_BuildValue_y_hash p L \<noteq> Inl (Undefined SignedOverflow)"
  "Py_BuildValue_s buf \<noteq> Inl (Undefined SignedOverflow)"
  "terminate p L \<noteq> Inl (Undefined SignedOverflow)"
  by (simp_all add: Py_BuildValue_y_hash_def Py_BuildValue_s_def terminate_def
      split: option.splits)

text \<open>
  What a call that reached the loop leaves in the trace: a path of the machine from
  \<open>Sizing 4096\<close>, which ends in \<open>Done\<close> unless the capacity overflows.
\<close>

lemma fill_buffer_path:
  assumes fill: "fill_buffer g al tr inp inlen = Some (r, evs)" and al: "\<forall>k. \<not> refuses al k"
  shows "(\<exists>L cap buf. r = Inr (L, cap, buf) \<and>
            machine_run (Sizing 4096) (calls evs) = Some (Done L)) \<or>
         (r = Inl (Undefined SignedOverflow) \<and>
            machine_run (Sizing 4096) (calls evs) = Some (Sizing (2 ^ 31)))"
proof (cases r)
  case (Inl e)
  from fill_buffer_granted [OF fill al] Inl have ne: "e \<noteq> Undefined NullBuffer" by simp
  from fill_buffer_machine_stuck [OF fill [unfolded Inl]] obtain C where
    run: "machine_run (Sizing 4096) (calls evs) = Some (Sizing C)"
    and e: "if e = Undefined SignedOverflow
      then INT_MAX < C \<and> C \<le> 2 * INT_MAX \<and> (\<exists>j. C = 4096 * 2 ^ j)
      else e = Undefined NullBuffer"
    by blast
  from e ne have ov: "e = Undefined SignedOverflow" by (simp split: if_splits)
  with e obtain j where "INT_MAX < C" "C \<le> 2 * INT_MAX" "C = 4096 * 2 ^ j" by auto
  then have "C = 2 ^ 31" by (rule capacity_beyond_int)
  with run ov Inl show ?thesis by simp
next
  case (Inr v)
  obtain L cap buf where v: "v = (L, cap, buf)" by (cases v)
  from fill_buffer_machine_done [OF fill [unfolded Inr v]] Inr v show ?thesis by simp
qed

text \<open>
  Claim C3, as stated, fails: for an output of \<open>2 ^ 30 + 1\<close> bytes the codec routine
  answers \<open>capacity + 1\<close> at each capacity from 4096 to \<open>2 ^ 30\<close>. After the answer at
  \<open>2 ^ 30\<close> the machine is in \<open>Sizing (2 ^ 31)\<close>, but the code does not get there:
  \<^verbatim>\<open>output_buffer_size *= 2\<close> overflows \<^verbatim>\<open>int\<close>, and the behaviour of the call is undefined
  from there on. The calls do not reach \<open>Done\<close>.
\<close>

theorem sizing_machine_counterexample:
  "returned (py_smaz_compress granting store [PyStr (replicate 1073741825 97)])
     = Some (Inl (Undefined SignedOverflow)) \<and>
   machine_run (Sizing 4096)
     (calls (trace (py_smaz_compress granting store [PyStr (replicate 1073741825 97)])))
     = Some (Sizing 2147483648)"
proof -
  let ?s = "replicate 1073741825 (97::byte)"
  have s: "0 \<notin> set ?s" "length ?s = 1073741825" by simp_all
  have "2 ^ 30 < length (stored ?s)" by (simp add: stored_def)
  from fill_buffer_too_large [OF honours_store _ this, of granting ByRealloc]
  obtain evs where
    fill: "fill_buffer ByRealloc granting store ?s (int (length ?s))
      = Some (Inl (Undefined SignedOverflow), evs)"
    by auto
  from fill_buffer_path [OF fill] have
    "machine_run (Sizing 4096) (calls evs) = Some (Sizing (2 ^ 31))" by simp
  moreover have "py_smaz_compress granting store [PyStr ?s]
      = Some (Inl (Undefined SignedOverflow), evs)"
    unfolding compress_parsed [OF s(1)] fill by simp
  ultimately show ?thesis by simp
qed

text \<open>
  Claim C3, amended. A call whose argument is accepted and whose allocation requests
  all succeed follows the machine from \<open>Sizing 4096\<close> for as long as the capacity is below
  \<open>2 ^ 30\<close>: the answer \<open>capacity + 1\<close> doubles the capacity and calls the codec routine
  again, any other answer \<open>L\<close> ends the loop in \<open>Done L\<close>. At the capacity \<open>2 ^ 30\<close>
  the answer \<open>capacity + 1\<close> leads to the overflow of \<^verbatim>\<open>int\<close> in the doubling, which is
  undefined behaviour: the calls made so far leave the machine in \<open>Sizing (2 ^ 31)\<close>, and
  no further transition is guaranteed. The model of every such call returns.
\<close>

theorem sizing_machine:
  assumes al: "\<forall>k. \<not> refuses al k"
    and args: "py = py_smaz_compress \<and> args = [PyStr s] \<and> 0 \<notin> set s \<or>
               py = py_smaz_decompress \<and> args = [PyBytes s]"
  shows "\<exists>res evs. py al tr args = Some (res, evs) \<and>
    (if res = Inl (Undefined SignedOverflow)
     then machine_run (Sizing 4096) (calls evs) = Some (Sizing (2 ^ 31))
     else \<exists>L. machine_run (Sizing 4096) (calls evs) = Some (Done L))"
  using args
proof
  assume a: "py = py_smaz_compress \<and> args = [PyStr s] \<and> 0 \<notin> set s"
  obtain r evs0 where fill: "fill_buffer ByRealloc al tr s (int (length s)) = Some (r, evs0)"
    using fill_buffer_returns [of ByRealloc al tr s "int (length s)"] by auto
  from fill_buffer_path [OF fill al] show ?thesis
  proof
    assume "\<exists>L cap buf. r = Inr (L, cap, buf) \<and>
        machine_run (Sizing 4096) (calls evs0) = Some (Done L)"
    then obtain L cap buf where r: "r = Inr (L, cap, buf)"
      and run: "machine_run (Sizing 4096) (calls evs0) = Some (Done L)" by blast
    from a fill r have "py al tr args = Some (Py_BuildValue_y_hash buf L, evs0 @ [Free])"
      by (simp add: compress_parsed)
    with run build_not_overflow show ?thesis by simp
  next
    assume "r = Inl (Undefined SignedOverflow) \<and>
        machine_run (Sizing 4096) (calls evs0) = Some (Sizing (2 ^ 31))"
    with a fill show ?thesis by (simp add: compress_parsed)
  qed
next
  assume a: "py = py_smaz_decompress \<and> args = [PyBytes s]"
  obtain r evs0 where fill: "fill_buffer ByMalloc al tr s (int (length s)) = Some (r, evs0)"
    using fill_buffer_returns [of ByMalloc al tr s "int (length s)"] by auto
  from fill_buffer_path [OF fill al] show ?thesis
  proof
    assume "\<exists>L cap buf. r = Inr (L, cap, buf) \<and>
        machine_run (Sizing 4096) (calls evs0) = Some (Done L)"
    then obtain L cap buf where r: "r = Inr (L, cap, buf)"
      and run: "machine_run (Sizing 4096) (calls evs0) = Some (Done L)" by blast
    show ?thesis
    proof (cases "terminate buf L")
      case (Inl e)
      with a fill r have "py al tr args = Some (Inl e, evs0)"
        by (simp add: decompress_parsed)
      moreover from Inl build_not_overflow(3) [of buf L] have "e \<noteq> Undefined SignedOverflow"
        by auto
      ultimately show ?thesis using run by simp
    next
      case (Inr terminated)
      with a fill r have "py al tr args = Some (Py_BuildValue_s terminated, evs0 @ [Free])"
        by (simp add: decompress_parsed)
      with run build_not_overflow show ?thesis by simp
    qed
  next
    assume "r = Inl (Undefined SignedOverflow) \<and>
        machine_run (Sizing 4096) (calls evs0) = Some (Sizing (2 ^ 31))"
    with a fill show ?thesis by (simp add: decompress_parsed)
  qed
qed

theorem sizing_machine_witness:
  "py_smaz_decompress granting store [PyBytes (replicate 5000 97)]
     = Some (Inr (PyStr (replicate 5000 97)),
         [Malloc 4096 True, Transform 5000 4096 4097,
          Malloc 8192 True, Transform 5000 8192 5000, Free]) \<and>
   (\<exists>L. machine_run (Sizing 4096)
      (calls [Malloc 4096 True, Transform 5000 4096 4097,
              Malloc 8192 True, Transform 5000 8192 5000, Free]) = Some (Done L))"
proof -
  let ?s = "replicate 5000 (97::byte)"
  let ?evs = "[Malloc 4096 True, Transform 5000 4096 4097,
               Malloc 8192 True, Transform 5000 8192 5000, Free]"
  have al: "\<forall>k. \<not> refuses granting k" by simp
  have "py_smaz_decompress = py_smaz_decompress \<and> [PyBytes ?s] = [PyBytes ?s]" by simp
  then have args: "py_smaz_decompress = py_smaz_compress \<and> [PyBytes ?s] = [PyStr ?s] \<and> 0 \<notin> set ?s \<or>
      py_smaz_decompress = py_smaz_decompress \<and> [PyBytes ?s] = [PyBytes ?s]" ..
  from sizing_machine [OF al args, of store] obtain res evs where
    call: "py_smaz_decompress granting store [PyBytes ?s] = Some (res, evs)"
    and run: "if res = Inl (Undefined SignedOverflow)
     then machine_run (Sizing 4096) (calls evs) = Some (Sizing (2 ^ 31))
     else \<exists>L. machine_run (Sizing 4096) (calls evs) = Some (Done L)"
    by blast
  have sentinel: "int 4096 + 1 = 4097" and fits: "\<not> INT_MAX < 2 * int 4096"
    by (simp_all add: INT_MAX_def)
  let ?b = "uninit granting 1 0 (2 * 4096)"
  have g: "grow ByMalloc granting 1 (Some (take 4096 ?s)) (2 * 4096) = Some ?b"
    by (simp add: malloc_def)
  have t: "on_buffer store ?s 5000 ?b (int (2 * 4096)) = (5000, ?s @ drop 5000 ?b)"
    by (simp add: store_def)
  have first: "fill_buffer ByMalloc granting store ?s 5000
      = retry_loop ByMalloc granting store ?s 5000 1 4096 (Some (take 4096 ?s)) 4097
          [Malloc 4096 True, Transform 5000 4096 4097]"
    by (simp add: fill_buffer_def malloc_def codec_call_def store_def)
  have fill: "fill_buffer ByMalloc granting store ?s 5000
      = Some (Inr (5000, 8192, Some (?s @ drop 5000 ?b)),
          [Malloc 4096 True, Transform 5000 4096 4097,
           Malloc 8192 True, Transform 5000 8192 5000])"
    unfolding first retry_loop_again [OF sentinel fits g t]
    by (simp add: retry_loop_done)
  have "valid_utf8 ?s" by (rule valid_utf8_ascii) simp
  moreover have "(5000::nat) < length (?s @ drop 5000 ?b)" by simp
  note build_terminated [OF this]
  ultimately have eval: "py_smaz_decompress granting store [PyBytes ?s] = Some (Inr (PyStr ?s), ?evs)"
    using fill by (simp add: decompress_parsed terminate_def takeWhile_full)
  with call have "res = Inr (PyStr ?s)" "evs = ?evs" by simp_all
  with run have "\<exists>L. machine_run (Sizing 4096) (calls ?evs) = Some (Done L)"
    by (simp del: machine_run.simps calls.simps)
  with eval show ?thesis by blast
qed

subsection \<open>Claims about the result\<close>

text \<open>What the wrappers return for a codec routine that keeps its contract.\<close>

lemma compress_honours:
  assumes h: "honours c f" and al: "\<forall>k. \<not> refuses al k" and s: "0 \<notin> set s"
    and bound: "length (f s) \<le> 2 ^ 30"
  shows "returned (py_smaz_compress al c [PyStr s]) = Some (Inr (PyBytes (f s)))"
proof -
  from fill_buffer_honours [OF h al bound, of ByRealloc] obtain cap buf evs where
    fill: "fill_buffer ByRealloc al c s (int (length s))
      = Some (Inr (int (length (f s)), cap, Some buf), evs)"
    and buf: "length buf = cap" "length (f s) \<le> cap" "take (length (f s)) buf = f s"
    by blast
  then have "Py_BuildValue_y_hash (Some buf) (int (length (f s))) = Inr (PyBytes (f s))"
    by (simp add: Py_BuildValue_y_hash_def)
  with fill s show ?thesis by (simp add: compress_parsed)
qed

lemma decompress_honours:
  assumes h: "honours d g" and al: "\<forall>k. \<not> refuses al k"
    and bound: "length (g b) \<le> 2 ^ 30" and inside: "\<And>j. length (g b) \<noteq> 4096 * 2 ^ j"
  shows "returned (py_smaz_decompress al d [PyBytes b]) =
    Some (if valid_utf8 (takeWhile (\<lambda>x. x \<noteq> 0) (g b))
          then Inr (PyStr (takeWhile (\<lambda>x. x \<noteq> 0) (g b)))
          else Inl UnicodeDecodeError)"
proof -
  from fill_buffer_honours [OF h al bound, of ByMalloc] obtain cap buf evs j where
    fill: "fill_buffer ByMalloc al d b (int (length b))
      = Some (Inr (int (length (g b)), cap, Some buf), evs)"
    and buf: "length buf = cap" "length (g b) \<le> cap" "take (length (g b)) buf = g b"
    and cap: "cap = 4096 * 2 ^ j"
    by blast
  from buf cap inside [of j] have "length (g b) < length buf" by simp
  from build_terminated [OF this] buf(3) this fill show ?thesis
    by (simp add: decompress_parsed terminate_def)
qed

lemma decompress_boundary:
  assumes h: "honours d g" and al: "\<forall>k. \<not> refuses al k"
    and bound: "length (g b) \<le> 2 ^ 30" and edge: "length (g b) = 4096 * 2 ^ j"
  shows "returned (py_smaz_decompress al d [PyBytes b]) =
    Some (Inl (Undefined (OutOfBoundsWrite (int (length (g b))) (length (g b)))))"
proof -
  from fill_buffer_honours [OF h al bound, of ByMalloc] obtain cap buf evs i where
    fill: "fill_buffer ByMalloc al d b (int (length b))
      = Some (Inr (int (length (g b)), cap, Some buf), evs)"
    and buf: "length buf = cap" "length (g b) \<le> cap"
    and cap: "cap = 4096 * 2 ^ i" and near: "cap = 4096 \<or> cap < 2 * length (g b)"
    by blast
  from buf(2) cap edge have "(2::nat) ^ j \<le> 2 ^ i" by simp
  then have ji: "j \<le> i" by (simp only: power_increasing_iff [of 2] one_less_numeral_iff semiring_norm)
  have "i \<le> j"
  proof (cases "cap = 4096")
    case True
    with cap have "(2::nat) ^ i = 2 ^ 0" by simp
    then have "i = 0" by (simp only: power_inject_exp [of 2] one_less_numeral_iff semiring_norm)
    then show ?thesis by simp
  next
    case False
    with near cap edge have "(2::nat) ^ i < 2 ^ Suc j" by simp
    then have "i < Suc j"
      by (simp only: power_strict_increasing_iff [of 2] one_less_numeral_iff semiring_norm)
    then show ?thesis by simp
  qed
  with ji cap edge buf have "length buf = length (g b)" by simp
  then have "terminate (Some buf) (int (length (g b)))
      = Inl (Undefined (OutOfBoundsWrite (int (length (g b))) (length (g b))))"
    by (simp add: terminate_def)
  with fill show ?thesis by (simp add: decompress_parsed)
qed

text \<open>
  Claim C9. The claim is that the index \<open>L\<close> of the terminating zero byte is below the
  capacity. The code writes at \<open>L\<close> whatever the capacity is: when the decompressed
  output has exactly the length of a capacity, \<open>4096 * 2 ^ j\<close>, the codec routine
  reports success with \<open>L\<close> equal to the capacity and the write is one byte past the
  end of the buffer.
\<close>

theorem terminator_past_buffer:
  assumes "honours d g" and "\<forall>k. \<not> refuses al k"
    and "length (g b) \<le> 2 ^ 30" and "length (g b) = 4096 * 2 ^ j"
  shows "returned (py_smaz_decompress al d [PyBytes b]) =
    Some (Inl (Undefined (OutOfBoundsWrite (int (length (g b))) (length (g b)))))"
  using assms by (rule decompress_boundary)

theorem terminator_past_buffer_witness:
  "length (stored (replicate 4096 97)) = 4096 * 2 ^ 0 \<and>
   returned (py_smaz_decompress granting store [PyBytes (replicate 4096 97)]) =
     Some (Inl (Undefined (OutOfBoundsWrite 4096 4096)))"
proof -
  have al: "\<forall>k. \<not> refuses granting k" by simp
  have len: "length (stored (replicate 4096 (97::byte))) = 4096 * 2 ^ 0"
    and bound: "length (stored (replicate 4096 (97::byte))) \<le> 2 ^ 30"
    by (simp_all add: stored_def)
  from terminator_past_buffer [OF honours_store al bound len] len
  show ?thesis by (simp add: stored_def)
qed


text \<open>
  Claim C4, as stated, fails for \<^verbatim>\<open>decompress\<close>: the codec routine reports the length 3
  and the buffer starts with the bytes 97, 0, 98, but the returned \<^verbatim>\<open>str\<close> has the single
  byte 97. \<^verbatim>\<open>Py_BuildValue("s", ...)\<close> reads a C string and stops at the first zero byte.
\<close>

theorem result_from_buffer_counterexample:
  "fill_buffer ByMalloc granting store [97, 0, 98] 3
     = Some (Inr (3, 4096, Some ([97, 0, 98] @ drop 3 (uninit granting 0 0 4096))),
             [Malloc 4096 True, Transform 3 4096 3]) \<and>
   py_smaz_decompress granting store [PyBytes [97, 0, 98]]
     = Some (Inr (PyStr [97]), [Malloc 4096 True, Transform 3 4096 3, Free])"
  by (simp add: decompress_parsed fill_buffer_def malloc_def codec_call_def store_def retry_loop_done
      terminate_def Py_BuildValue_s_def)

text \<open>
  Claim C4, amended. Let the loop end with the reported length \<open>L\<close>, \<open>0 \<le> L\<close>, and the
  buffer \<open>buf\<close> (the pointer is not null; claim C6 is about the null pointer). If \<open>L\<close>
  is at most the size of \<open>buf\<close>, \<^verbatim>\<open>compress\<close> returns exactly the first \<open>L\<close> bytes of
  \<open>buf\<close>. If \<open>L\<close> is below the size of \<open>buf\<close> and the first \<open>L\<close> bytes of \<open>buf\<close>
  contain no zero byte and are well-formed UTF-8, \<^verbatim>\<open>decompress\<close> returns exactly these
  \<open>L\<close> bytes as \<^verbatim>\<open>str\<close>. In both cases the bytes of the buffer from position \<open>L\<close> on
  do not appear in the result.
\<close>

theorem result_from_buffer:
  "(fill_buffer ByRealloc al c s (int (length s)) = Some (Inr (L, cap, Some buf), evs) \<and>
    0 \<notin> set s \<and> 0 \<le> L \<and> L \<le> int (length buf) \<longrightarrow>
      py_smaz_compress al c [PyStr s]
        = Some (Inr (PyBytes (take (nat L) buf)), evs @ [Free])) \<and>
   (fill_buffer ByMalloc al' d b (int (length b)) = Some (Inr (L', cap', Some buf'), evs') \<and>
    0 \<le> L' \<and> L' < int (length buf') \<and> 0 \<notin> set (take (nat L') buf') \<and>
    valid_utf8 (take (nat L') buf') \<longrightarrow>
      py_smaz_decompress al' d [PyBytes b]
        = Some (Inr (PyStr (take (nat L') buf')), evs' @ [Free]))"
proof (intro conjI impI)
  assume "fill_buffer ByRealloc al c s (int (length s)) = Some (Inr (L, cap, Some buf), evs) \<and>
    0 \<notin> set s \<and> 0 \<le> L \<and> L \<le> int (length buf)"
  then show "py_smaz_compress al c [PyStr s]
      = Some (Inr (PyBytes (take (nat L) buf)), evs @ [Free])"
    by (simp add: compress_parsed Py_BuildValue_y_hash_def)
next
  assume a: "fill_buffer ByMalloc al' d b (int (length b)) = Some (Inr (L', cap', Some buf'), evs') \<and>
    0 \<le> L' \<and> L' < int (length buf') \<and> 0 \<notin> set (take (nat L') buf') \<and>
    valid_utf8 (take (nat L') buf')"
  then have "takeWhile (\<lambda>x. x \<noteq> 0) (take (nat L') buf') = take (nat L') buf'"
    by (simp add: takeWhile_full)
  with a terminated_build [of L' buf']
  show "py_smaz_decompress al' d [PyBytes b]
      = Some (Inr (PyStr (take (nat L') buf')), evs' @ [Free])"
    by (simp add: decompress_parsed)
qed

theorem result_from_buffer_witness:
  "fill_buffer ByRealloc granting store [104, 105] (int (length [104, 105 :: byte]))
     = Some (Inr (2, 4096, Some ([104, 105] @ drop 2 (uninit granting 0 0 4096))),
             [Malloc 4096 True, Transform 2 4096 2]) \<and>
   py_smaz_compress granting store [PyStr [104, 105]]
     = Some (Inr (PyBytes [104, 105]), [Malloc 4096 True, Transform 2 4096 2, Free]) \<and>
   fill_buffer ByMalloc granting store [104, 105] (int (length [104, 105 :: byte]))
     = Some (Inr (2, 4096, Some ([104, 105] @ drop 2 (uninit granting 0 0 4096))),
             [Malloc 4096 True, Transform 2 4096 2]) \<and>
   py_smaz_decompress granting store [PyBytes [104, 105]]
     = Some (Inr (PyStr [104, 105]), [Malloc 4096 True, Transform 2 4096 2, Free])"
proof -
  let ?buf = "[104, 105] @ drop 2 (uninit granting 0 0 4096)"
  let ?evs = "[Malloc 4096 True, Transform 2 4096 2]"
  have fill: "fill_buffer g granting store [104, 105] (int (length [104, 105 :: byte]))
     = Some (Inr (2, 4096, Some ?buf), ?evs)" for g
    by (simp add: fill_buffer_def malloc_def codec_call_def store_def retry_loop_done)
  have c: "0 \<notin> set [104, 105 :: byte] \<and> (0::int) \<le> 2 \<and> 2 \<le> int (length ?buf)"
    by simp
  have d: "(0::int) \<le> 2 \<and> 2 < int (length ?buf) \<and> 0 \<notin> set (take (nat 2) ?buf) \<and>
      valid_utf8 (take (nat 2) ?buf)"
    by simp
  from result_from_buffer [of granting store "[104, 105]" 2 4096 ?buf ?evs
      granting store "[104, 105]" 2 4096 ?buf ?evs] fill c d
  show ?thesis by simp
qed



text \<open>
  Claim C2, as stated, fails for \<^verbatim>\<open>decompress\<close>: the output has 5000 bytes, more than
  the first capacity, and its second byte is zero; the returned \<^verbatim>\<open>str\<close> has one byte,
  not the 5000 that the codec routine reports.
\<close>

theorem growth_counterexample:
  "length (stored (97 # 0 # replicate 4998 98)) = 5000 \<and>
   returned (py_smaz_decompress granting store [PyBytes (97 # 0 # replicate 4998 98)])
     = Some (Inr (PyStr [97]))"
proof -
  let ?b = "97 # 0 # replicate 4998 (98::byte)"
  have len: "length (stored ?b) = 5000" by (simp add: stored_def)
  have al: "\<forall>k. \<not> refuses granting k" by simp
  have bound: "length (stored ?b) \<le> 2 ^ 30" using len by simp
  have inside: "length (stored ?b) \<noteq> 4096 * 2 ^ j" for j
    using len by (simp add: between_capacities)
  from decompress_honours [OF honours_store al bound inside] len
  show ?thesis by (simp add: stored_def)
qed

text \<open>
  Claim C2, amended. For codec routines that keep their contract, with every allocation
  request granted: if the compressed output has more than 4096 and at most \<open>2 ^ 30\<close>
  bytes, \<^verbatim>\<open>compress\<close> returns exactly the output; if the decompressed output has more
  than 4096 and at most \<open>2 ^ 30\<close> bytes, its length is none of the capacities
  \<open>4096 * 2 ^ j\<close>, and it is well-formed UTF-8 without a zero byte, \<^verbatim>\<open>decompress\<close> returns
  exactly the output as \<^verbatim>\<open>str\<close>.
\<close>

theorem growth_correct:
  assumes "honours c f" and "honours d g" and "\<forall>k. \<not> refuses al k"
  shows "(0 \<notin> set s \<and> 4096 < length (f s) \<and> length (f s) \<le> 2 ^ 30 \<longrightarrow>
            returned (py_smaz_compress al c [PyStr s]) = Some (Inr (PyBytes (f s)))) \<and>
         (4096 < length (g b) \<and> length (g b) \<le> 2 ^ 30 \<and>
          (\<forall>j. length (g b) \<noteq> 4096 * 2 ^ j) \<and> 0 \<notin> set (g b) \<and> valid_utf8 (g b) \<longrightarrow>
            returned (py_smaz_decompress al d [PyBytes b]) = Some (Inr (PyStr (g b))))"
proof (intro conjI impI)
  assume "0 \<notin> set s \<and> 4096 < length (f s) \<and> length (f s) \<le> 2 ^ 30"
  with assms show "returned (py_smaz_compress al c [PyStr s]) = Some (Inr (PyBytes (f s)))"
    by (simp add: compress_honours)
next
  assume a: "4096 < length (g b) \<and> length (g b) \<le> 2 ^ 30 \<and>
    (\<forall>j. length (g b) \<noteq> 4096 * 2 ^ j) \<and> 0 \<notin> set (g b) \<and> valid_utf8 (g b)"
  then have "takeWhile (\<lambda>x. x \<noteq> 0) (g b) = g b" by (simp add: takeWhile_full)
  with a decompress_honours [OF assms(2,3), of b]
  show "returned (py_smaz_decompress al d [PyBytes b]) = Some (Inr (PyStr (g b)))"
    by simp
qed

theorem growth_correct_witness:
  "returned (py_smaz_compress granting store [PyStr (replicate 5000 97)])
     = Some (Inr (PyBytes (replicate 5000 97))) \<and>
   returned (py_smaz_decompress granting store [PyBytes (replicate 5000 97)])
     = Some (Inr (PyStr (replicate 5000 97)))"
proof -
  let ?s = "replicate 5000 (97::byte)"
  have al: "\<forall>k. \<not> refuses granting k" by simp
  have "valid_utf8 ?s" by (rule valid_utf8_ascii) simp
  then have "0 \<notin> set ?s \<and> 4096 < length (stored ?s) \<and> length (stored ?s) \<le> 2 ^ 30"
    and "4096 < length (stored ?s) \<and> length (stored ?s) \<le> 2 ^ 30 \<and>
      (\<forall>j. length (stored ?s) \<noteq> 4096 * 2 ^ j) \<and> 0 \<notin> set (stored ?s) \<and> valid_utf8 (stored ?s)"
    by (simp_all add: stored_def between_capacities)
  with growth_correct [OF honours_store honours_store al, of ?s ?s]
  show ?thesis by (simp add: stored_def)
qed

text \<open>
  Claim C1, as stated, fails: a \<^verbatim>\<open>str\<close> of \<open>2 ^ 30 + 1\<close> letters whose compressed form is as
  long is not compressed. The capacity would have to pass \<open>2 ^ 30\<close>, and doubling the
  \<^verbatim>\<open>int\<close> that holds it overflows.
\<close>

theorem round_trip_counterexample:
  "returned (py_smaz_compress granting store [PyStr (replicate 1073741825 97)])
     = Some (Inl (Undefined SignedOverflow))"
proof -
  let ?s = "replicate 1073741825 (97::byte)"
  have s: "0 \<notin> set ?s" by simp
  have "2 ^ 30 < length (stored ?s)" by (simp add: stored_def)
  from fill_buffer_too_large [OF honours_store _ this, of granting ByRealloc]
  obtain evs where
    fill: "fill_buffer ByRealloc granting store ?s (int (length ?s))
      = Some (Inl (Undefined SignedOverflow), evs)"
    by auto
  show ?thesis unfolding compress_parsed [OF s] fill by simp
qed

text \<open>
  Claim C1, amended. Let the codec routines keep their contract for a codec that
  restores \<open>s\<close> from its compressed form, and let every allocation request be granted.
  For every \<^verbatim>\<open>str\<close> \<open>s\<close> without a null character (and well-formed, as every \<^verbatim>\<open>str\<close> that
  the format unit \<^verbatim>\<open>s\<close> accepts is) such that \<open>s\<close> and its compressed form have at most
  \<open>2 ^ 30\<close> bytes and the length of \<open>s\<close> is none of the capacities \<open>4096 * 2 ^ j\<close>:
  \<^verbatim>\<open>decompress(compress(s)) == s\<close>.
\<close>

theorem round_trip:
  assumes "honours c enc" and "honours d dec" and "dec (enc s) = s"
    and "\<forall>k. \<not> refuses al k" and "\<forall>k. \<not> refuses al' k"
    and "0 \<notin> set s" and "valid_utf8 s"
    and "length (enc s) \<le> 2 ^ 30" and "length s \<le> 2 ^ 30"
    and "\<And>j. length s \<noteq> 4096 * 2 ^ j"
  shows "returned (py_smaz_compress al c [PyStr s]) = Some (Inr (PyBytes (enc s))) \<and>
         returned (py_smaz_decompress al' d [PyBytes (enc s)]) = Some (Inr (PyStr s))"
proof
  from assms show "returned (py_smaz_compress al c [PyStr s]) = Some (Inr (PyBytes (enc s)))"
    by (simp add: compress_honours)
  have "takeWhile (\<lambda>x. x \<noteq> 0) s = s" using assms(6) by (simp add: takeWhile_full)
  with assms decompress_honours [OF assms(2,5), of "enc s"]
  show "returned (py_smaz_decompress al' d [PyBytes (enc s)]) = Some (Inr (PyStr s))"
    by simp
qed

theorem round_trip_witness:
  "returned (py_smaz_compress granting store [PyStr [104, 105]])
     = Some (Inr (PyBytes [104, 105])) \<and>
   returned (py_smaz_decompress granting store [PyBytes [104, 105]])
     = Some (Inr (PyStr [104, 105]))"
proof -
  let ?s = "[104, 105 :: byte]"
  have al: "\<forall>k. \<not> refuses granting k" by simp
  have rt: "stored (stored ?s) = ?s" by (simp add: stored_def)
  have s: "0 \<notin> set ?s" "valid_utf8 ?s" "length (stored ?s) \<le> 2 ^ 30" "length ?s \<le> 2 ^ 30"
    by (simp_all add: stored_def)
  have inside: "length ?s \<noteq> 4096 * 2 ^ j" for j by (simp add: below_first_capacity)
  from round_trip [OF honours_store honours_store rt al al s inside]
  show ?thesis by (simp add: stored_def)
qed

subsection \<open>Termination\<close>

text \<open>
  Every call returns: the loop ends at the latest when the capacity \<open>2 ^ 30\<close> cannot be
  doubled.
\<close>

lemma py_smaz_compress_returns: "\<exists>y. py_smaz_compress al tr args = Some y"
proof (cases "PyArg_ParseTuple_s ''compress'' args")
  case (Inl e)
  then show ?thesis by (simp add: py_smaz_compress_def)
next
  case (Inr s)
  obtain r evs where "fill_buffer ByRealloc al tr s (int (strlen s)) = Some (r, evs)"
    using fill_buffer_returns [of ByRealloc al tr s "int (strlen s)"] by auto
  with Inr show ?thesis by (cases r) (auto simp: py_smaz_compress_def)
qed

lemma py_smaz_decompress_returns: "\<exists>y. py_smaz_decompress al tr args = Some y"
proof (cases "PyArg_ParseTuple_y_hash ''decompress'' args")
  case (Inl e)
  then show ?thesis by (simp add: py_smaz_decompress_def)
next
  case (Inr p)
  obtain b n where p: "p = (b, n)" by (cases p)
  obtain r evs where "fill_buffer ByMalloc al tr b n = Some (r, evs)"
    using fill_buffer_returns [of ByMalloc al tr b n] by auto
  with Inr p show ?thesis
    by (cases r) (auto simp: py_smaz_decompress_def split: sum.splits)
qed

end
